theory Spec2Isabelle
  imports Main
begin

section \<open>Values exchanged with the registry service\<close>

text \<open>
  The client is \<^verbatim>\<open>sdks/python/schema_registry/client.py\<close>. Python strings are modelled
  as HOL strings, one \<open>char\<close> per code point, so the strings covered are those whose code
  points lie below 256. A decoded JSON document is a value of \<open>json\<close>; a JSON object is the
  Python dict it decodes to, kept as an association list read with \<open>map_of\<close>. JSON numbers
  are restricted to integers.
\<close>

datatype json =
    JNull
  | JBool bool
  | JNum int
  | JStr string
  | JArr "json list"
  | JObj "(string \<times> json) list"

text \<open>\<^verbatim>\<open>d.get(key, default)\<close> on a dict.\<close>

definition dict_get :: "(string \<times> json) list \<Rightarrow> string \<Rightarrow> json \<Rightarrow> json" where
  "dict_get d k dflt = (case map_of d k of None \<Rightarrow> dflt | Some v \<Rightarrow> v)"

text \<open>
  What the client reads of an \<^verbatim>\<open>httpx.Response\<close>: the status code, the result of
  \<^verbatim>\<open>response.json()\<close> (\<open>None\<close> when that call raises because the body is not JSON),
  the raw body \<^verbatim>\<open>response.text\<close> (the field \<open>response_text\<close>), and
  \<^verbatim>\<open>response.headers.get("Retry-After")\<close>.
\<close>

record response =
  status_code :: int
  body_json :: "json option"
  response_text :: string
  retry_after_header :: "string option"

definition is_success :: "response \<Rightarrow> bool" where
  "is_success r = (200 \<le> status_code r \<and> status_code r \<le> 299)"

section \<open>Exceptions\<close>

text \<open>
  The classes of \<^verbatim>\<open>exceptions.py\<close>, each constructor holding the arguments its
  \<^verbatim>\<open>__init__\<close> receives, followed by the exceptions of the libraries and of the
  interpreter that the client can let through. \<open>RetryError\<close> is what the retry decorator
  raises when it gives up; it wraps the exception of the last attempt.
\<close>

datatype exn =
    SchemaRegistryError json int
  | SchemaNotFoundError json
  | SchemaValidationError "string list"
  | IncompatibleSchemaError json
  | AuthenticationError json
  | AuthorizationError json
  | RateLimitError "int option"
  | ServerError json
  | TimeoutException
  | TransportError
  | JSONDecodeError
  | ValidationError
  | UnboundLocalError
  | AttributeError
  | TypeError
  | ValueError
  | KeyError
  | RetryError exn

text \<open>The attributes the exception classes set: \<^verbatim>\<open>status_code\<close>, \<^verbatim>\<open>schema_id\<close>,
  \<^verbatim>\<open>incompatibilities\<close>.\<close>

fun exn_status_code :: "exn \<Rightarrow> int option" where
  "exn_status_code (SchemaRegistryError m c) = Some c"
| "exn_status_code (SchemaNotFoundError i) = Some 404"
| "exn_status_code (SchemaValidationError es) = Some 400"
| "exn_status_code (IncompatibleSchemaError l) = Some 409"
| "exn_status_code (AuthenticationError m) = Some 401"
| "exn_status_code (AuthorizationError m) = Some 403"
| "exn_status_code (RateLimitError r) = Some 429"
| "exn_status_code (ServerError m) = Some 500"
| "exn_status_code _ = None"

fun exn_schema_id :: "exn \<Rightarrow> json option" where
  "exn_schema_id (SchemaNotFoundError i) = Some i"
| "exn_schema_id _ = None"

fun exn_incompatibilities :: "exn \<Rightarrow> json option" where
  "exn_incompatibilities (IncompatibleSchemaError l) = Some l"
| "exn_incompatibilities _ = None"

text \<open>
  \<^verbatim>\<open>IncompatibleSchemaError.__init__\<close> iterates over its argument to build the message,
  which raises \<^verbatim>\<open>TypeError\<close> for a value that is not iterable.
\<close>

fun new_IncompatibleSchemaError :: "json \<Rightarrow> exn" where
  "new_IncompatibleSchemaError JNull = TypeError"
| "new_IncompatibleSchemaError (JBool b) = TypeError"
| "new_IncompatibleSchemaError (JNum n) = TypeError"
| "new_IncompatibleSchemaError incompatibilities = IncompatibleSchemaError incompatibilities"

section \<open>Reading an integer from a header\<close>

text \<open>
  \<^verbatim>\<open>int(s)\<close> on a string of code points below 256: surrounding whitespace is stripped,
  one sign is allowed, then decimal digits, where a single underscore may stand between
  two digits. Anything else raises \<^verbatim>\<open>ValueError\<close> (\<open>None\<close> here), and so does a string
  of more than 4300 digits, the interpreter's default limit for the conversion. The
  whitespace that is stripped is tab, line feed, vertical tab, form feed, carriage
  return and space, and the two characters above 127 that the interpreter turns into a
  space beforehand, next line (133) and no-break space (160); the separators 28 to 31 are
  not stripped.
\<close>

definition is_space :: "char \<Rightarrow> bool" where
  "is_space c = (of_char c \<in> {9, 10, 11, 12, 13, 32, 133, 160 :: nat})"

definition is_ascii_digit :: "char \<Rightarrow> bool" where
  "is_ascii_digit c = (48 \<le> (of_char c :: nat) \<and> (of_char c :: nat) \<le> 57)"

definition strip :: "string \<Rightarrow> string" where
  "strip s = rev (dropWhile is_space (rev (dropWhile is_space s)))"

fun digits_value :: "int \<Rightarrow> string \<Rightarrow> int option" where
  "digits_value acc [] = None"
| "digits_value acc [c] =
     (if is_ascii_digit c then Some (acc * 10 + (int (of_char c) - 48)) else None)"
| "digits_value acc (c # d # cs) =
     (if is_ascii_digit c then
        (if d = CHR ''_'' then digits_value (acc * 10 + (int (of_char c) - 48)) cs
         else digits_value (acc * 10 + (int (of_char c) - 48)) (d # cs))
      else None)"

definition py_int :: "string \<Rightarrow> int option" where
  "py_int s =
     (case strip s of
        [] \<Rightarrow> None
      | c # cs \<Rightarrow>
          if length (filter is_ascii_digit (c # cs)) > 4300 then None
          else if c = CHR ''-'' then map_option uminus (digits_value 0 cs)
          else if c = CHR ''+'' then digits_value 0 cs
          else digits_value 0 (c # cs))"

section \<open>Translating an error response\<close>

text \<open>
  \<^verbatim>\<open>_handle_response_error\<close>: \<open>None\<close> when it returns, \<open>Some e\<close> when it raises \<open>e\<close>.
  The local \<^verbatim>\<open>error_data\<close> is bound only when \<^verbatim>\<open>response.json()\<close> returned; it is
  the \<open>json option\<close> below. When the decoded body is not a dict, the call
  \<^verbatim>\<open>error_data.get\<close> inside the \<^verbatim>\<open>try\<close> raises and the handler takes the raw text.
\<close>

definition handle_response_error :: "response \<Rightarrow> exn option" where
  "handle_response_error response =
     (if is_success response then None
      else
        let code = status_code response;
            error_data = body_json response;
            message =
              (case error_data of
                 Some (JObj d) \<Rightarrow> dict_get d ''message'' (JStr (response_text response))
               | _ \<Rightarrow> JStr (response_text response))
        in
          if code = 401 then Some (AuthenticationError message)
          else if code = 403 then Some (AuthorizationError message)
          else if code = 404 then Some (SchemaNotFoundError message)
          else if code = 409 then
            (case error_data of
               None \<Rightarrow> Some UnboundLocalError
             | Some (JObj d) \<Rightarrow>
                 Some (new_IncompatibleSchemaError
                         (dict_get d ''incompatibilities'' (JArr [message])))
             | Some _ \<Rightarrow> Some AttributeError)
          else if code = 429 then
            (case retry_after_header response of
               None \<Rightarrow> Some (RateLimitError None)
             | Some retry_after \<Rightarrow>
                 if retry_after = [] then Some (RateLimitError None)
                 else (case py_int retry_after of
                         None \<Rightarrow> Some ValueError
                       | Some n \<Rightarrow> Some (RateLimitError (Some n))))
          else if code \<ge> 500 then Some (ServerError message)
          else Some (SchemaRegistryError message code))"

section \<open>The expiring cache\<close>

text \<open>
  \<^verbatim>\<open>self._cache\<close> is a \<^verbatim>\<open>cachetools.TTLCache(maxsize, ttl)\<close>. The library is not part
  of the repository; the operations the client calls on it are modelled after the
  library's implementation. An entry is a key, a value and the time at which it expires;
  the list is in the order of use, least recently used first. Every operation reads the
  timer once; the reading is the argument \<open>now\<close>. The timer is monotonic, so the expired
  entries are the ones the library removes when it expires from the oldest on.
\<close>

type_synonym time = int

record 'v ttl_cache =
  maxsize :: int
  ttl :: int
  entries :: "(string \<times> 'v \<times> time) list"

definition TTLCache :: "int \<Rightarrow> int \<Rightarrow> 'v ttl_cache" where
  "TTLCache m t = \<lparr>maxsize = m, ttl = t, entries = []\<rparr>"

definition live :: "time \<Rightarrow> string \<times> 'v \<times> time \<Rightarrow> bool" where
  "live now e = (now < snd (snd e))"

definition other_key :: "string \<Rightarrow> string \<times> 'v \<times> time \<Rightarrow> bool" where
  "other_key key e = (fst e \<noteq> key)"

text \<open>\<^verbatim>\<open>expire(time)\<close>: drop the entries whose time has come.\<close>

definition expire :: "time \<Rightarrow> (string \<times> 'v \<times> time) list \<Rightarrow> (string \<times> 'v \<times> time) list" where
  "expire now es = filter (live now) es"

text \<open>\<^verbatim>\<open>key in cache\<close>: the key is stored and its entry has not expired.\<close>

definition cache_contains :: "'v ttl_cache \<Rightarrow> time \<Rightarrow> string \<Rightarrow> bool" where
  "cache_contains c now key =
     (case map_of (entries c) key of
        None \<Rightarrow> False
      | Some (v, expires) \<Rightarrow> now < expires)"

text \<open>
  \<^verbatim>\<open>cache[key]\<close>: the entry moves to the most-recently-used end; an expired or absent
  key raises \<^verbatim>\<open>KeyError\<close>.
\<close>

definition cache_getitem :: "'v ttl_cache \<Rightarrow> time \<Rightarrow> string \<Rightarrow> (exn + 'v) \<times> 'v ttl_cache" where
  "cache_getitem c now key =
     (case map_of (entries c) key of
        None \<Rightarrow> (Inl KeyError, c)
      | Some (v, expires) \<Rightarrow>
          let c' = c\<lparr>entries := filter (other_key key) (entries c) @ [(key, v, expires)]\<rparr>
          in if now < expires then (Inr v, c') else (Inl KeyError, c'))"

text \<open>
  The loop \<^verbatim>\<open>while currsize + size > maxsize: popitem()\<close> of \<^verbatim>\<open>Cache.__setitem__\<close>,
  every value having size 1: \<^verbatim>\<open>popitem\<close> removes the least recently used entry.
\<close>

fun evict :: "int \<Rightarrow> 'e list \<Rightarrow> 'e list" where
  "evict m [] = []"
| "evict m (e # es) = (if int (length (e # es)) + 1 > m then evict m es else e # es)"

text \<open>
  \<^verbatim>\<open>cache[key] = value\<close>: expired entries are dropped first; a cache whose \<^verbatim>\<open>maxsize\<close>
  is below 1 refuses every value with \<^verbatim>\<open>ValueError\<close>; room is made for a new key; the
  entry is written at the most-recently-used end and expires \<^verbatim>\<open>ttl\<close> after \<open>now\<close>.
\<close>

definition cache_setitem :: "'v ttl_cache \<Rightarrow> time \<Rightarrow> string \<Rightarrow> 'v \<Rightarrow> (exn + unit) \<times> 'v ttl_cache" where
  "cache_setitem c now key v =
     (let es = expire now (entries c) in
      if 1 > maxsize c then (Inl ValueError, c\<lparr>entries := es\<rparr>)
      else
        let es' = (if map_of es key = None then evict (maxsize c) es else es)
        in (Inr (), c\<lparr>entries := filter (other_key key) es' @ [(key, v, now + ttl c)]\<rparr>))"

text \<open>\<^verbatim>\<open>del cache[key]\<close>: removes the entry; raises \<^verbatim>\<open>KeyError\<close> when the key is absent or
  its entry had expired.\<close>

definition cache_delitem :: "'v ttl_cache \<Rightarrow> time \<Rightarrow> string \<Rightarrow> (exn + unit) \<times> 'v ttl_cache" where
  "cache_delitem c now key =
     (case map_of (entries c) key of
        None \<Rightarrow> (Inl KeyError, c)
      | Some (v, expires) \<Rightarrow>
          let c' = c\<lparr>entries := filter (other_key key) (entries c)\<rparr>
          in if now < expires then (Inr (), c') else (Inl KeyError, c'))"

text \<open>\<^verbatim>\<open>cache.clear()\<close>.\<close>

definition cache_clear :: "'v ttl_cache \<Rightarrow> 'v ttl_cache" where
  "cache_clear c = c\<lparr>entries := []\<rparr>"

section \<open>Schemas\<close>

text \<open>The models of \<^verbatim>\<open>models.py\<close> that the client sends.\<close>

datatype SchemaFormat = JSON_SCHEMA | AVRO | PROTOBUF

datatype CompatibilityMode =
  BACKWARD | FORWARD | FULL | BACKWARD_TRANSITIVE | FORWARD_TRANSITIVE | FULL_TRANSITIVE | NONE

fun format_value :: "SchemaFormat \<Rightarrow> string" where
  "format_value JSON_SCHEMA = ''json_schema''"
| "format_value AVRO = ''avro''"
| "format_value PROTOBUF = ''protobuf''"

fun mode_value :: "CompatibilityMode \<Rightarrow> string" where
  "mode_value BACKWARD = ''backward''"
| "mode_value FORWARD = ''forward''"
| "mode_value FULL = ''full''"
| "mode_value BACKWARD_TRANSITIVE = ''backward_transitive''"
| "mode_value FORWARD_TRANSITIVE = ''forward_transitive''"
| "mode_value FULL_TRANSITIVE = ''full_transitive''"
| "mode_value NONE = ''none''"

record SchemaMetadata =
  description :: "string option"
  tags :: "string list"
  owner :: "string option"
  custom :: "(string \<times> json) list"

record Schema =
  namespace :: string
  name :: string
  version :: string
  format :: SchemaFormat
  content :: string
  metadata :: "SchemaMetadata option"

text \<open>\<^verbatim>\<open>v.split(".")\<close>.\<close>

fun split_dot :: "string \<Rightarrow> string list" where
  "split_dot [] = [[]]"
| "split_dot (c # cs) =
     (if c = CHR ''.'' then [] # split_dot cs
      else (case split_dot cs of [] \<Rightarrow> [[c]] | p # ps \<Rightarrow> (c # p) # ps))"

text \<open>
  \<^verbatim>\<open>str.isdigit()\<close>: the string is not empty and every character is a digit. Below
  code point 256 the digits are \<open>0\<close> to \<open>9\<close> and the superscripts two, three and one
  (code points 178, 179 and 185).
\<close>

definition is_digit_char :: "char \<Rightarrow> bool" where
  "is_digit_char c =
     (is_ascii_digit c \<or> of_char c = (178::nat) \<or> of_char c = (179::nat) \<or> of_char c = (185::nat))"

definition isdigit :: "string \<Rightarrow> bool" where
  "isdigit s = (s \<noteq> [] \<and> list_all is_digit_char s)"

text \<open>\<^verbatim>\<open>Schema.validate_version\<close>; both of its \<^verbatim>\<open>raise ValueError\<close> are \<open>Inl ValueError\<close>.\<close>

definition validate_version :: "string \<Rightarrow> exn + string" where
  "validate_version v =
     (let parts = split_dot v in
      if length parts \<noteq> 3 then Inl ValueError
      else if list_all isdigit parts then Inr v
      else Inl ValueError)"

text \<open>
  Constructing a \<^verbatim>\<open>Schema\<close>: the field validator runs on the version, and the model
  class turns its \<^verbatim>\<open>ValueError\<close> into a \<^verbatim>\<open>ValidationError\<close>.
\<close>

definition new_Schema ::
  "string \<Rightarrow> string \<Rightarrow> string \<Rightarrow> SchemaFormat \<Rightarrow> string \<Rightarrow> SchemaMetadata option \<Rightarrow> exn + Schema" where
  "new_Schema ns n v f c m =
     (case validate_version v of
        Inl e \<Rightarrow> Inl ValidationError
      | Inr v' \<Rightarrow>
          Inr \<lparr>namespace = ns, name = n, version = v', format = f, content = c, metadata = m\<rparr>)"

text \<open>\<^verbatim>\<open>model_dump(mode="json", exclude_none=True)\<close>.\<close>

definition opt_field :: "string \<Rightarrow> json option \<Rightarrow> (string \<times> json) list" where
  "opt_field k v = (case v of None \<Rightarrow> [] | Some j \<Rightarrow> [(k, j)])"

definition dump_metadata :: "SchemaMetadata \<Rightarrow> json" where
  "dump_metadata m =
     JObj (opt_field ''description'' (map_option JStr (description m))
           @ [(''tags'', JArr (map JStr (tags m)))]
           @ opt_field ''owner'' (map_option JStr (owner m))
           @ [(''custom'', JObj (custom m))])"

definition model_dump :: "Schema \<Rightarrow> json" where
  "model_dump schema =
     JObj ([(''namespace'', JStr (namespace schema)),
            (''name'', JStr (name schema)),
            (''version'', JStr (version schema)),
            (''format'', JStr (format_value (format schema))),
            (''content'', JStr (content schema))]
           @ opt_field ''metadata'' (map_option dump_metadata (metadata schema)))"

section \<open>The client and its surroundings\<close>

text \<open>
  A request as the client hands it to the HTTP library: method, path, query parameters
  and JSON body.
\<close>

datatype http_method = GET | POST | DELETE

record request =
  http_method :: http_method
  path :: string
  params :: "(string \<times> json) list"
  body :: "json option"

text \<open>
  The client object: the attributes \<^verbatim>\<open>__init__\<close> sets, with \<open>sent\<close> recording the
  requests issued so far, in order. The cache holds the records that the two read
  operations store, of type \<open>'r\<close>.
\<close>

record 'r client =
  base_url :: string
  api_key :: "string option"
  max_retries :: int
  cache :: "'r ttl_cache"
  sent :: "request list"

definition rstrip_slash :: "string \<Rightarrow> string" where
  "rstrip_slash s = rev (dropWhile (\<lambda>c. c = CHR ''/'') (rev s))"

definition init :: "string \<Rightarrow> string option \<Rightarrow> int \<Rightarrow> int \<Rightarrow> int \<Rightarrow> 'r client" where
  "init url key retries cache_ttl cache_maxsize =
     \<lparr>base_url = rstrip_slash url, api_key = key, max_retries = retries,
      cache = TTLCache cache_maxsize cache_ttl, sent = []\<rparr>"

text \<open>
  What one attempt of an operation meets outside the client. The cache reads the timer
  once in each of its operations, so an attempt reads it up to twice before the request
  and up to twice after the response: \<open>clock\<close> is the reading of
  \<^verbatim>\<open>cache_key in self._cache\<close> before the request and \<open>clock_getitem\<close> the one of
  \<^verbatim>\<open>self._cache[cache_key]\<close> that follows it; \<open>reply\<close> is what the HTTP call yields if it
  is made, an exception of the HTTP library or a response; \<open>clock_after\<close> is the reading
  of the first cache operation after the response, \<^verbatim>\<open>self._cache[cache_key] = ...\<close> in
  the reads and \<^verbatim>\<open>cache_key in self._cache\<close> in the writes, and \<open>clock_delitem\<close> the one
  of \<^verbatim>\<open>del self._cache[cache_key]\<close> that follows it.
\<close>

record attempt_env =
  clock :: time
  clock_getitem :: time
  reply :: "exn + response"
  clock_after :: time
  clock_delitem :: time

definition send :: "request \<Rightarrow> 'r client \<Rightarrow> 'r client" where
  "send rq s = s\<lparr>sent := sent s @ [rq]\<rparr>"

text \<open>
  The two statements every operation runs on the reply,
  \<^verbatim>\<open>response = await self._client...\<close> and \<^verbatim>\<open>self._handle_response_error(response)\<close>,
  and the \<^verbatim>\<open>response.json()\<close> that follows them.
\<close>

definition checked_response :: "attempt_env \<Rightarrow> exn + response" where
  "checked_response env =
     (case reply env of
        Inl e \<Rightarrow> Inl e
      | Inr response \<Rightarrow>
          (case handle_response_error response of
             Some e \<Rightarrow> Inl e
           | None \<Rightarrow> Inr response))"

definition checked_json :: "attempt_env \<Rightarrow> exn + json" where
  "checked_json env =
     (case checked_response env of
        Inl e \<Rightarrow> Inl e
      | Inr response \<Rightarrow>
          (case body_json response of
             None \<Rightarrow> Inl JSONDecodeError
           | Some data \<Rightarrow> Inr data))"

section \<open>The retry decorator\<close>

text \<open>
  Every operation is decorated with
  \<^verbatim>\<open>@retry(retry=retry_if_exception_type((httpx.TimeoutException, ServerError)),
  stop=stop_after_attempt(3), wait=wait_exponential(multiplier=1, min=1, max=10))\<close>.
  The decorator comes from the library \<^verbatim>\<open>tenacity\<close>, which is not part of the repository;
  its three ingredients and its loop are modelled after the library: the body is called;
  a result is returned; an exception that the predicate rejects is raised as it is; for
  an exception that the predicate accepts the loop stops with \<^verbatim>\<open>RetryError\<close> when the
  stop condition holds for the number of the attempt, and otherwise sleeps for the wait
  of that attempt and calls the body again. Attempts are numbered from 1.
\<close>

fun retry_if_exception_type :: "exn \<Rightarrow> bool" where
  "retry_if_exception_type TimeoutException = True"
| "retry_if_exception_type (ServerError m) = True"
| "retry_if_exception_type e = False"

definition stop_after_attempt :: "nat \<Rightarrow> nat \<Rightarrow> bool" where
  "stop_after_attempt max_attempt_number attempt_number =
     (attempt_number \<ge> max_attempt_number)"

definition wait_exponential :: "int \<Rightarrow> int \<Rightarrow> int \<Rightarrow> nat \<Rightarrow> int" where
  "wait_exponential multiplier mn mx attempt_number =
     max (max 0 mn) (min (multiplier * 2 ^ (attempt_number - 1)) mx)"

text \<open>
  What a decorated call leaves behind: what the caller gets, the outcome of every attempt
  in order, and the waits slept between the attempts.
\<close>

record 'a retried =
  result :: "exn + 'a"
  trace :: "(exn + 'a) list"
  waits :: "int list"

function retry_loop ::
  "(attempt_env \<Rightarrow> 's \<Rightarrow> (exn + 'a) \<times> 's) \<Rightarrow> (nat \<Rightarrow> attempt_env) \<Rightarrow> nat \<Rightarrow> 's
     \<Rightarrow> 'a retried \<times> 's" where
  "retry_loop f envs attempt_number s =
     (case f (envs attempt_number) s of
        (Inr v, s') \<Rightarrow> (\<lparr>result = Inr v, trace = [Inr v], waits = []\<rparr>, s')
      | (Inl e, s') \<Rightarrow>
          if retry_if_exception_type e then
            if stop_after_attempt 3 attempt_number
            then (\<lparr>result = Inl (RetryError e), trace = [Inl e], waits = []\<rparr>, s')
            else
              (case retry_loop f envs (Suc attempt_number) s' of
                 (out, s'') \<Rightarrow>
                   (out\<lparr>trace := Inl e # trace out,
                        waits := wait_exponential 1 1 10 attempt_number # waits out\<rparr>, s''))
          else (\<lparr>result = Inl e, trace = [Inl e], waits = []\<rparr>, s'))"
  by pat_completeness auto
termination
  by (relation "measure (\<lambda>(f, envs, n, s). 3 - n)") (auto simp: stop_after_attempt_def)

definition retry ::
  "(attempt_env \<Rightarrow> 's \<Rightarrow> (exn + 'a) \<times> 's) \<Rightarrow> (nat \<Rightarrow> attempt_env) \<Rightarrow> 's \<Rightarrow> 'a retried \<times> 's" where
  "retry f envs s = retry_loop f envs 1 s"

section \<open>The operations\<close>

text \<open>
  Each operation is its undecorated body, one attempt, named \<open>..._body\<close>, and the
  decorated function under the source's name. The constructors of the response models
  (\<^verbatim>\<open>RegisterSchemaResponse(**data)\<close> and the others) belong to the model library; they
  are the parameter \<open>parse\<close>, which returns the record or the exception raised.
\<close>

definition register_schema_body ::
  "(json \<Rightarrow> exn + 'q) \<Rightarrow> Schema \<Rightarrow> attempt_env \<Rightarrow> 'r client \<Rightarrow> (exn + 'q) \<times> 'r client" where
  "register_schema_body parse schema env s =
     (let payload = model_dump schema;
          s1 = send \<lparr>http_method = POST, path = ''/api/v1/schemas'', params = [],
                     body = Some payload\<rparr> s
      in case checked_json env of
           Inl e \<Rightarrow> (Inl e, s1)
         | Inr data \<Rightarrow>
             (case parse data of
                Inl e \<Rightarrow> (Inl e, s1)
              | Inr res \<Rightarrow>
                  let cache_key = namespace schema @ ''.'' @ name schema in
                  if cache_contains (cache s1) (clock_after env) cache_key then
                    (case cache_delitem (cache s1) (clock_delitem env) cache_key of
                       (Inl e, c') \<Rightarrow> (Inl e, s1\<lparr>cache := c'\<rparr>)
                     | (Inr u, c') \<Rightarrow> (Inr res, s1\<lparr>cache := c'\<rparr>))
                  else (Inr res, s1)))"

definition register_schema ::
  "(json \<Rightarrow> exn + 'q) \<Rightarrow> Schema \<Rightarrow> (nat \<Rightarrow> attempt_env) \<Rightarrow> 'r client \<Rightarrow> 'q retried \<times> 'r client" where
  "register_schema parse schema = retry (register_schema_body parse schema)"

definition get_schema_body ::
  "(json \<Rightarrow> exn + 'r) \<Rightarrow> string \<Rightarrow> bool \<Rightarrow> attempt_env \<Rightarrow> 'r client \<Rightarrow> (exn + 'r) \<times> 'r client" where
  "get_schema_body parse schema_id use_cache env s =
     (let cache_key = ''schema:'' @ schema_id in
      if use_cache \<and> cache_contains (cache s) (clock env) cache_key then
        (case cache_getitem (cache s) (clock_getitem env) cache_key of
           (r, c') \<Rightarrow> (r, s\<lparr>cache := c'\<rparr>))
      else
        let s1 = send \<lparr>http_method = GET, path = ''/api/v1/schemas/'' @ schema_id, params = [],
                       body = None\<rparr> s
        in case checked_json env of
             Inl e \<Rightarrow> (Inl e, s1)
           | Inr data \<Rightarrow>
               (case parse data of
                  Inl e \<Rightarrow> (Inl e, s1)
                | Inr res \<Rightarrow>
                    if use_cache then
                      (case cache_setitem (cache s1) (clock_after env) cache_key res of
                         (Inl e, c') \<Rightarrow> (Inl e, s1\<lparr>cache := c'\<rparr>)
                       | (Inr u, c') \<Rightarrow> (Inr res, s1\<lparr>cache := c'\<rparr>))
                    else (Inr res, s1)))"

definition get_schema ::
  "(json \<Rightarrow> exn + 'r) \<Rightarrow> string \<Rightarrow> bool \<Rightarrow> (nat \<Rightarrow> attempt_env) \<Rightarrow> 'r client
     \<Rightarrow> 'r retried \<times> 'r client" where
  "get_schema parse schema_id use_cache = retry (get_schema_body parse schema_id use_cache)"

definition get_schema_by_version_body ::
  "(json \<Rightarrow> exn + 'r) \<Rightarrow> string \<Rightarrow> string \<Rightarrow> string \<Rightarrow> attempt_env \<Rightarrow> 'r client
     \<Rightarrow> (exn + 'r) \<times> 'r client" where
  "get_schema_by_version_body parse ns n v env s =
     (let cache_key = ''schema:'' @ ns @ ''.'' @ n @ '':'' @ v in
      if cache_contains (cache s) (clock env) cache_key then
        (case cache_getitem (cache s) (clock_getitem env) cache_key of
           (r, c') \<Rightarrow> (r, s\<lparr>cache := c'\<rparr>))
      else
        let s1 = send \<lparr>http_method = GET,
                       path = ''/api/v1/schemas/'' @ ns @ ''/'' @ n @ ''/versions/'' @ v,
                       params = [], body = None\<rparr> s
        in case checked_json env of
             Inl e \<Rightarrow> (Inl e, s1)
           | Inr data \<Rightarrow>
               (case parse data of
                  Inl e \<Rightarrow> (Inl e, s1)
                | Inr res \<Rightarrow>
                    (case cache_setitem (cache s1) (clock_after env) cache_key res of
                       (Inl e, c') \<Rightarrow> (Inl e, s1\<lparr>cache := c'\<rparr>)
                     | (Inr u, c') \<Rightarrow> (Inr res, s1\<lparr>cache := c'\<rparr>))))"

definition get_schema_by_version ::
  "(json \<Rightarrow> exn + 'r) \<Rightarrow> string \<Rightarrow> string \<Rightarrow> string \<Rightarrow> (nat \<Rightarrow> attempt_env) \<Rightarrow> 'r client
     \<Rightarrow> 'r retried \<times> 'r client" where
  "get_schema_by_version parse ns n v = retry (get_schema_by_version_body parse ns n v)"

text \<open>
  \<^verbatim>\<open>validate_data\<close>: a dict is serialised with \<^verbatim>\<open>json.dumps\<close> first, the parameter
  \<open>dumps\<close>; a string is sent as it is.
\<close>

definition validate_data_body ::
  "(json \<Rightarrow> exn + 'a) \<Rightarrow> ((string \<times> json) list \<Rightarrow> string) \<Rightarrow> string
     \<Rightarrow> string + (string \<times> json) list \<Rightarrow> attempt_env \<Rightarrow> 'r client \<Rightarrow> (exn + 'a) \<times> 'r client" where
  "validate_data_body parse dumps schema_id data env s =
     (let data' = (case data of Inl str \<Rightarrow> str | Inr d \<Rightarrow> dumps d);
          payload = JObj [(''schema_id'', JStr schema_id), (''data'', JStr data')];
          s1 = send \<lparr>http_method = POST, path = ''/api/v1/validate'', params = [],
                     body = Some payload\<rparr> s
      in case checked_json env of
           Inl e \<Rightarrow> (Inl e, s1)
         | Inr j \<Rightarrow> (parse j, s1))"

definition validate_data ::
  "(json \<Rightarrow> exn + 'a) \<Rightarrow> ((string \<times> json) list \<Rightarrow> string) \<Rightarrow> string
     \<Rightarrow> string + (string \<times> json) list \<Rightarrow> (nat \<Rightarrow> attempt_env) \<Rightarrow> 'r client
     \<Rightarrow> 'a retried \<times> 'r client" where
  "validate_data parse dumps schema_id data = retry (validate_data_body parse dumps schema_id data)"

definition check_compatibility_body ::
  "(json \<Rightarrow> exn + 'a) \<Rightarrow> string \<Rightarrow> string \<Rightarrow> CompatibilityMode \<Rightarrow> attempt_env \<Rightarrow> 'r client
     \<Rightarrow> (exn + 'a) \<times> 'r client" where
  "check_compatibility_body parse schema_id new_schema_content mode env s =
     (let payload = JObj [(''schema_id'', JStr schema_id),
                          (''new_schema'', JStr new_schema_content),
                          (''mode'', JStr (mode_value mode))];
          s1 = send \<lparr>http_method = POST, path = ''/api/v1/compatibility/check'', params = [],
                     body = Some payload\<rparr> s
      in case checked_json env of
           Inl e \<Rightarrow> (Inl e, s1)
         | Inr j \<Rightarrow> (parse j, s1))"

definition check_compatibility ::
  "(json \<Rightarrow> exn + 'a) \<Rightarrow> string \<Rightarrow> string \<Rightarrow> CompatibilityMode \<Rightarrow> (nat \<Rightarrow> attempt_env)
     \<Rightarrow> 'r client \<Rightarrow> 'a retried \<times> 'r client" where
  "check_compatibility parse schema_id new_schema_content mode =
     retry (check_compatibility_body parse schema_id new_schema_content mode)"

text \<open>
  The comprehension \<^verbatim>\<open>[Model(**x) for x in results]\<close>: the elements of a list are parsed
  in order and the first exception ends it; an empty dict or string yields no element;
  the keys of a dict and the characters of a string cannot be unpacked, and the other
  values cannot be iterated, which raises \<^verbatim>\<open>TypeError\<close>.
\<close>

fun parse_all :: "(json \<Rightarrow> exn + 'a) \<Rightarrow> json list \<Rightarrow> exn + 'a list" where
  "parse_all parse [] = Inr []"
| "parse_all parse (x # xs) =
     (case parse x of
        Inl e \<Rightarrow> Inl e
      | Inr v \<Rightarrow> (case parse_all parse xs of Inl e \<Rightarrow> Inl e | Inr vs \<Rightarrow> Inr (v # vs)))"

fun parse_each :: "(json \<Rightarrow> exn + 'a) \<Rightarrow> json \<Rightarrow> exn + 'a list" where
  "parse_each parse (JArr xs) = parse_all parse xs"
| "parse_each parse (JObj []) = Inr []"
| "parse_each parse (JStr []) = Inr []"
| "parse_each parse j = Inl TypeError"

definition search_schemas_body ::
  "(json \<Rightarrow> exn + 'a) \<Rightarrow> string \<Rightarrow> int \<Rightarrow> int \<Rightarrow> attempt_env \<Rightarrow> 'r client
     \<Rightarrow> (exn + 'a list) \<times> 'r client" where
  "search_schemas_body parse query limit offset env s =
     (let s1 = send \<lparr>http_method = GET, path = ''/api/v1/search'',
                     params = [(''q'', JStr query), (''limit'', JNum limit),
                               (''offset'', JNum offset)],
                     body = None\<rparr> s
      in case checked_json env of
           Inl e \<Rightarrow> (Inl e, s1)
         | Inr results \<Rightarrow> (parse_each parse results, s1))"

definition search_schemas ::
  "(json \<Rightarrow> exn + 'a) \<Rightarrow> string \<Rightarrow> int \<Rightarrow> int \<Rightarrow> (nat \<Rightarrow> attempt_env) \<Rightarrow> 'r client
     \<Rightarrow> 'a list retried \<times> 'r client" where
  "search_schemas parse query limit offset = retry (search_schemas_body parse query limit offset)"

definition list_versions_body ::
  "(json \<Rightarrow> exn + 'a) \<Rightarrow> string \<Rightarrow> string \<Rightarrow> attempt_env \<Rightarrow> 'r client
     \<Rightarrow> (exn + 'a list) \<times> 'r client" where
  "list_versions_body parse ns n env s =
     (let s1 = send \<lparr>http_method = GET,
                     path = ''/api/v1/schemas/'' @ ns @ ''/'' @ n @ ''/versions'',
                     params = [], body = None\<rparr> s
      in case checked_json env of
           Inl e \<Rightarrow> (Inl e, s1)
         | Inr versions \<Rightarrow> (parse_each parse versions, s1))"

definition list_versions ::
  "(json \<Rightarrow> exn + 'a) \<Rightarrow> string \<Rightarrow> string \<Rightarrow> (nat \<Rightarrow> attempt_env) \<Rightarrow> 'r client
     \<Rightarrow> 'a list retried \<times> 'r client" where
  "list_versions parse ns n = retry (list_versions_body parse ns n)"

definition delete_schema_body ::
  "string \<Rightarrow> attempt_env \<Rightarrow> 'r client \<Rightarrow> (exn + unit) \<times> 'r client" where
  "delete_schema_body schema_id env s =
     (let s1 = send \<lparr>http_method = DELETE, path = ''/api/v1/schemas/'' @ schema_id, params = [],
                     body = None\<rparr> s
      in case checked_response env of
           Inl e \<Rightarrow> (Inl e, s1)
         | Inr response \<Rightarrow>
             let cache_key = ''schema:'' @ schema_id in
             if cache_contains (cache s1) (clock_after env) cache_key then
               (case cache_delitem (cache s1) (clock_delitem env) cache_key of
                  (r, c') \<Rightarrow> (r, s1\<lparr>cache := c'\<rparr>))
             else (Inr (), s1))"

definition delete_schema ::
  "string \<Rightarrow> (nat \<Rightarrow> attempt_env) \<Rightarrow> 'r client \<Rightarrow> unit retried \<times> 'r client" where
  "delete_schema schema_id = retry (delete_schema_body schema_id)"

definition health_check_body :: "attempt_env \<Rightarrow> 'r client \<Rightarrow> (exn + json) \<times> 'r client" where
  "health_check_body env s =
     (let s1 = send \<lparr>http_method = GET, path = ''/health'', params = [], body = None\<rparr> s
      in (checked_json env, s1))"

definition health_check ::
  "(nat \<Rightarrow> attempt_env) \<Rightarrow> 'r client \<Rightarrow> json retried \<times> 'r client" where
  "health_check = retry health_check_body"

definition clear_cache :: "'r client \<Rightarrow> 'r client" where
  "clear_cache s = s\<lparr>cache := cache_clear (cache s)\<rparr>"

section \<open>The specification's wording of a version\<close>

text \<open>
  The specification asks for a version of the form \<^verbatim>\<open><uint>.<uint>.<uint>\<close>: three
  non-negative integers in decimal notation, separated by dots. This predicate follows
  the specification's words, not the code; \<open>validate_version\<close> above is the code.
\<close>

definition is_uint :: "string \<Rightarrow> bool" where
  "is_uint s = (s \<noteq> [] \<and> list_all is_ascii_digit s)"

definition spec_version :: "string \<Rightarrow> bool" where
  "spec_version v = (case split_dot v of [a, b, c] \<Rightarrow> is_uint a \<and> is_uint b \<and> is_uint c | _ \<Rightarrow> False)"

section \<open>Sample inputs\<close>

text \<open>
  A client as the examples of the repository construct it, a schema, a stored record as
  the service returns it, and the surroundings of an attempt that is answered with a
  given status and body, or that times out, at time \<open>t\<close>. The response models are read
  with the parser \<open>Inr\<close>, which keeps the decoded JSON as the record.
\<close>

definition demo_client :: "int \<Rightarrow> int \<Rightarrow> int \<Rightarrow> json client" where
  "demo_client retries cache_ttl cache_maxsize =
     init ''http://localhost:8080'' (Some ''your-api-key'') retries cache_ttl cache_maxsize"

definition demo_schema :: Schema where
  "demo_schema =
     \<lparr>namespace = ''telemetry'', name = ''InferenceEvent'', version = ''1.0.0'',
      format = JSON_SCHEMA, content = ''{}'', metadata = None\<rparr>"

definition demo_record :: "string \<Rightarrow> json" where
  "demo_record i =
     JObj [(''schema_id'', JStr i), (''namespace'', JStr ''telemetry''),
           (''name'', JStr ''InferenceEvent''), (''version'', JStr ''1.0.0'')]"

definition answers :: "int \<Rightarrow> json option \<Rightarrow> string \<Rightarrow> time \<Rightarrow> attempt_env" where
  "answers code j txt t =
     \<lparr>clock = t, clock_getitem = t,
      reply = Inr \<lparr>status_code = code, body_json = j, response_text = txt,
                   retry_after_header = None\<rparr>,
      clock_after = t, clock_delitem = t\<rparr>"

definition times_out :: "time \<Rightarrow> attempt_env" where
  "times_out t =
     \<lparr>clock = t, clock_getitem = t, reply = Inl TimeoutException, clock_after = t,
      clock_delitem = t\<rparr>"


text \<open>An attempt answered 409 with a given JSON object as body.\<close>

definition conflict_body :: "(string \<times> json) list \<Rightarrow> attempt_env" where
  "conflict_body d = answers 409 (Some (JObj d)) ''{}'' 0"

text \<open>
  A client that has read the schema \<^verbatim>\<open>abc\<close> by id at time 0 and by version at time 1, so
  that its cache holds one entry under each kind of key.
\<close>

definition warm_client :: "json client" where
  "warm_client =
     snd (get_schema_by_version Inr ''telemetry'' ''InferenceEvent'' ''1.0.0''
            (\<lambda>n. answers 200 (Some (demo_record ''abc'')) ''{}'' 1)
            (snd (get_schema Inr ''abc'' True
                    (\<lambda>n. answers 200 (Some (demo_record ''abc'')) ''{}'' 0)
                    (demo_client 3 300 1000))))"

text \<open>A client that has read the schema \<^verbatim>\<open>abc\<close> by id at time 0.\<close>

definition read_client :: "json client" where
  "read_client =
     snd (get_schema Inr ''abc'' True (\<lambda>n. answers 200 (Some (demo_record ''abc'')) ''{}'' 0)
            (demo_client 3 300 1000))"

text \<open>A version whose last part is the superscript two, code point 178.\<close>

definition superscript_version :: string where
  "superscript_version = ''1.0.'' @ [CHR 0xB2]"

section \<open>The specification's wording of the retry policy\<close>

text \<open>
  The specification retries an operation only after a network timeout or a server-side
  error, waits 1 time unit after the first attempt and doubles the wait up to 10, and
  makes at most 3 attempts. The definitions of this section follow these words, not the
  decorator. \<open>after_attempts f envs s k\<close> is the client after the attempts 1 to \<open>k\<close> of the
  body \<open>f\<close> have run one after the other, and \<open>attempt f envs s k\<close> is the outcome of
  attempt \<open>k\<close>.
\<close>

fun after_attempts ::
  "(attempt_env \<Rightarrow> 's \<Rightarrow> (exn + 'a) \<times> 's) \<Rightarrow> (nat \<Rightarrow> attempt_env) \<Rightarrow> 's \<Rightarrow> nat \<Rightarrow> 's" where
  "after_attempts f envs s 0 = s"
| "after_attempts f envs s (Suc k) = snd (f (envs (Suc k)) (after_attempts f envs s k))"

definition attempt ::
  "(attempt_env \<Rightarrow> 's \<Rightarrow> (exn + 'a) \<times> 's) \<Rightarrow> (nat \<Rightarrow> attempt_env) \<Rightarrow> 's \<Rightarrow> nat \<Rightarrow> exn + 'a" where
  "attempt f envs s k = fst (f (envs k) (after_attempts f envs s (k - 1)))"

definition transient :: "exn \<Rightarrow> bool" where
  "transient e = (case e of TimeoutException \<Rightarrow> True | ServerError m \<Rightarrow> True | _ \<Rightarrow> False)"

definition backoff :: "nat \<Rightarrow> int" where
  "backoff k = min (2 ^ (k - 1)) 10"

text \<open>
  A decorated call \<open>run\<close> of the body \<open>f\<close> follows the policy when it consists of the
  attempts 1 to \<open>n\<close> of the body and nothing else, with \<open>n\<close> between 1 and 3; every attempt
  before the last failed with a transient failure; the last attempt returned, or failed
  with another failure, which is then raised as it is, or was the third; and the waits
  between the attempts are the backoff.
\<close>

definition follows_retry_policy ::
  "(attempt_env \<Rightarrow> 's \<Rightarrow> (exn + 'a) \<times> 's) \<Rightarrow> (nat \<Rightarrow> attempt_env) \<Rightarrow> 's
     \<Rightarrow> 'a retried \<times> 's \<Rightarrow> bool" where
  "follows_retry_policy f envs s run =
     (let out = fst run; n = length (trace out) in
        1 \<le> n \<and> n \<le> 3
      \<and> trace out = map (attempt f envs s) [1 ..< Suc n]
      \<and> snd run = after_attempts f envs s n
      \<and> (\<forall>k \<in> {1 ..< n}. case attempt f envs s k of Inl e \<Rightarrow> transient e | Inr v \<Rightarrow> False)
      \<and> (case attempt f envs s n of
            Inr v \<Rightarrow> result out = Inr v
          | Inl e \<Rightarrow>
              if transient e then n = 3 \<and> result out = Inl (RetryError e)
              else result out = Inl e)
      \<and> waits out = map backoff [1 ..< n])"

text \<open>\<open>sends s s' k\<close>: from \<open>s\<close> to \<open>s'\<close> the client has issued exactly \<open>k\<close> requests.\<close>

definition sends :: "'r client \<Rightarrow> 'r client \<Rightarrow> nat \<Rightarrow> bool" where
  "sends s s' k =
     (take (length (sent s)) (sent s') = sent s \<and> length (sent s') = length (sent s) + k)"

section \<open>The specification's wording of a read through the cache\<close>

text \<open>
  What the specification asks of a read with the cache key \<open>key\<close>, stated on a decorated
  call \<open>run\<close> that started in the client \<open>s\<close>; \<open>env\<close> is the surroundings of its last
  attempt. The cache keeps its time-to-live and its size bound. When the key is visible
  at the timer reading of the last attempt, that attempt sends no request, the record
  returned is the one stored under the key, its expiry time lies after both timer
  readings of the attempt (a record whose time has come between them is not returned:
  the read raises), and the cache holds the same entries as before, with the same expiry
  times, the entry read being now the most recently used. Otherwise every attempt has
  sent a request; a record that is returned is the one read from the response of the
  last attempt; it is stored, when the cache is in use, with the expiry time "timer
  reading of the store plus time-to-live", and no other entry is added or changed.
\<close>

definition never_stale ::
  "(json \<Rightarrow> exn + 'r) \<Rightarrow> string \<Rightarrow> bool \<Rightarrow> (nat \<Rightarrow> attempt_env) \<Rightarrow> 'r client
     \<Rightarrow> 'r retried \<times> 'r client \<Rightarrow> bool" where
  "never_stale parse key use_cache envs s run =
     (let out = fst run; s' = snd run; n = length (trace out); env = envs n in
        ttl (cache s') = ttl (cache s) \<and> maxsize (cache s') = maxsize (cache s)
      \<and> (if use_cache \<and> cache_contains (cache s) (clock env) key
         then sends s s' (n - 1)
            \<and> (case map_of (entries (cache s)) key of
                 None \<Rightarrow> False
               | Some (v, e) \<Rightarrow>
                   clock env < e
                   \<and> result out = (if clock_getitem env < e then Inr v else Inl KeyError)
                   \<and> entries (cache s')
                       = filter (other_key key) (entries (cache s)) @ [(key, v, e)])
         else sends s s' n
            \<and> (case result out of
                 Inr v \<Rightarrow>
                   (case checked_json env of
                      Inl e \<Rightarrow> False
                    | Inr data \<Rightarrow> parse data = Inr v)
                   \<and> (if use_cache
                      then map_of (entries (cache s')) key
                             = Some (v, clock_after env + ttl (cache s))
                         \<and> set (entries (cache s'))
                             \<subseteq> insert (key, v, clock_after env + ttl (cache s))
                                 (set (entries (cache s)))
                      else cache s' = cache s)
               | Inl e \<Rightarrow> set (entries (cache s')) \<subseteq> set (entries (cache s)))))"

text \<open>
  A decorated read \<open>run\<close> that started in the client \<open>s\<close> fetches when each of its
  attempts has sent a request and a record that it returns is the one read from the
  response of its last attempt.
\<close>

definition fetches ::
  "(json \<Rightarrow> exn + 'r) \<Rightarrow> (nat \<Rightarrow> attempt_env) \<Rightarrow> 'r client \<Rightarrow> 'r retried \<times> 'r client \<Rightarrow> bool" where
  "fetches parse envs s run =
     (let n = length (trace (fst run)) in
        sends s (snd run) n
      \<and> (case result (fst run) of
            Inr v \<Rightarrow>
              (case checked_json (envs n) of
                 Inl e \<Rightarrow> False
               | Inr data \<Rightarrow> parse data = Inr v)
          | Inl e \<Rightarrow> True))"

section \<open>The shape the two reads share\<close>

text \<open>
  \<^verbatim>\<open>get_schema\<close> and \<^verbatim>\<open>get_schema_by_version\<close> are the same statements up to the cache key,
  the request and the flag \<^verbatim>\<open>use_cache\<close>, which the second does not have. The function
  below is that common shape; it is a device of the proofs, which show it equal to either
  body and reason about it once.
\<close>

definition cached_read ::
  "(json \<Rightarrow> exn + 'r) \<Rightarrow> string \<Rightarrow> request \<Rightarrow> bool \<Rightarrow> attempt_env \<Rightarrow> 'r client
     \<Rightarrow> (exn + 'r) \<times> 'r client" where
  "cached_read parse cache_key rq use_cache env s =
     (if use_cache \<and> cache_contains (cache s) (clock env) cache_key then
        (case cache_getitem (cache s) (clock_getitem env) cache_key of
           (r, c') \<Rightarrow> (r, s\<lparr>cache := c'\<rparr>))
      else
        let s1 = send rq s
        in case checked_json env of
             Inl e \<Rightarrow> (Inl e, s1)
           | Inr data \<Rightarrow>
               (case parse data of
                  Inl e \<Rightarrow> (Inl e, s1)
                | Inr res \<Rightarrow>
                    if use_cache then
                      (case cache_setitem (cache s1) (clock_after env) cache_key res of
                         (Inl e, c') \<Rightarrow> (Inl e, s1\<lparr>cache := c'\<rparr>)
                       | (Inr u, c') \<Rightarrow> (Inr res, s1\<lparr>cache := c'\<rparr>))
                    else (Inr res, s1)))"

section \<open>What happens between two reads\<close>







section \<open>An entry and what was used after it\<close>

text \<open>
  \<open>keeps key r e n c\<close>: the cache holds the record \<open>r\<close> under \<open>key\<close> with expiry time \<open>e\<close>,
  and at most \<open>n\<close> entries are more recently used than it.
\<close>

definition keeps :: "string \<Rightarrow> 'v \<Rightarrow> time \<Rightarrow> nat \<Rightarrow> 'v ttl_cache \<Rightarrow> bool" where
  "keeps key r e n c =
     (\<exists>pre post. entries c = pre @ (key, r, e) # post
        \<and> key \<notin> fst ` set pre \<and> key \<notin> fst ` set post \<and> length post \<le> n)"

text \<open>
  \<open>shrinks c c'\<close>: the cache \<open>c'\<close> holds no entry that \<open>c\<close> does not hold, with the same
  expiry time, and has the time-to-live and the size bound of \<open>c\<close>.
\<close>

definition shrinks :: "'v ttl_cache \<Rightarrow> 'v ttl_cache \<Rightarrow> bool" where
  "shrinks c c' =
     (set (entries c') \<subseteq> set (entries c) \<and> ttl c' = ttl c \<and> maxsize c' = maxsize c)"

section \<open>The retry loop, step by step\<close>

text \<open>
  The defining equation of the loop calls itself, so it is taken out of the simplifier's
  rules and replaced by one lemma for each way an attempt can end.
\<close>

declare retry_loop.simps [simp del]

lemma retry_loop_Inr:
  "f (envs n) s = (Inr v, s1) \<Longrightarrow>
     retry_loop f envs n s = (\<lparr>result = Inr v, trace = [Inr v], waits = []\<rparr>, s1)"
  by (subst retry_loop.simps) simp

lemma retry_loop_raise:
  "f (envs n) s = (Inl e, s1) \<Longrightarrow> \<not> retry_if_exception_type e \<Longrightarrow>
     retry_loop f envs n s = (\<lparr>result = Inl e, trace = [Inl e], waits = []\<rparr>, s1)"
  by (subst retry_loop.simps) simp

lemma retry_loop_stop:
  "f (envs n) s = (Inl e, s1) \<Longrightarrow> retry_if_exception_type e \<Longrightarrow> 3 \<le> n \<Longrightarrow>
     retry_loop f envs n s = (\<lparr>result = Inl (RetryError e), trace = [Inl e], waits = []\<rparr>, s1)"
  by (subst retry_loop.simps) (simp add: stop_after_attempt_def)

lemma retry_loop_again:
  "f (envs n) s = (Inl e, s1) \<Longrightarrow> retry_if_exception_type e \<Longrightarrow> n < 3 \<Longrightarrow>
     retry_loop f envs (Suc n) s1 = (out1, s2) \<Longrightarrow>
     retry_loop f envs n s =
       (out1\<lparr>trace := Inl e # trace out1,
             waits := wait_exponential 1 1 10 n # waits out1\<rparr>, s2)"
  by (subst retry_loop.simps) (simp add: stop_after_attempt_def)

lemma retry_loop_cases:
  obtains (returned) v s1 where "f (envs n) s = (Inr v, s1)"
      "retry_loop f envs n s = (\<lparr>result = Inr v, trace = [Inr v], waits = []\<rparr>, s1)"
  | (raised) e s1 where "f (envs n) s = (Inl e, s1)" "\<not> retry_if_exception_type e"
      "retry_loop f envs n s = (\<lparr>result = Inl e, trace = [Inl e], waits = []\<rparr>, s1)"
  | (stopped) e s1 where "f (envs n) s = (Inl e, s1)" "retry_if_exception_type e" "3 \<le> n"
      "retry_loop f envs n s = (\<lparr>result = Inl (RetryError e), trace = [Inl e], waits = []\<rparr>, s1)"
  | (retried) e s1 out1 s2 where "f (envs n) s = (Inl e, s1)" "retry_if_exception_type e" "n < 3"
      "retry_loop f envs (Suc n) s1 = (out1, s2)"
      "retry_loop f envs n s =
         (out1\<lparr>trace := Inl e # trace out1,
               waits := wait_exponential 1 1 10 n # waits out1\<rparr>, s2)"
proof -
  obtain r s1 where fr: "f (envs n) s = (r, s1)" by (cases "f (envs n) s")
  obtain out1 s2 where rec: "retry_loop f envs (Suc n) s1 = (out1, s2)"
    by (cases "retry_loop f envs (Suc n) s1")
  show thesis
  proof (cases r)
    case (Inr v)
    then show ?thesis using fr retry_loop_Inr[of f envs n s v s1] returned by simp
  next
    case (Inl e)
    show ?thesis
    proof (cases "retry_if_exception_type e")
      case False
      then show ?thesis using fr Inl retry_loop_raise[of f envs n s e s1] raised by simp
    next
      case True
      show ?thesis
      proof (cases "3 \<le> n")
        case True
        then show ?thesis
          using fr Inl \<open>retry_if_exception_type e\<close> retry_loop_stop[of f envs n s e s1] stopped by simp
      next
        case False
        then have "n < 3" by simp
        then show ?thesis
          using fr Inl True rec retry_loop_again[of f envs n s e s1 out1 s2] retried by simp
      qed
    qed
  qed
qed

lemma retry_loop_trace:
  assumes "n \<le> 3" "1 \<le> n" "retry_loop f envs n s = (out, s')"
  shows "trace out \<noteq> [] \<and> n + length (trace out) \<le> 4
     \<and> waits out = map (wait_exponential 1 1 10) [n ..< n + length (trace out) - 1]
     \<and> (\<forall>i. Suc i < length (trace out) \<longrightarrow> (\<exists>e. trace out ! i = Inl e \<and> retry_if_exception_type e))
     \<and> hd (trace out) = fst (f (envs n) s)
     \<and> (case last (trace out) of
           Inr v \<Rightarrow> result out = Inr v
         | Inl e \<Rightarrow>
             if retry_if_exception_type e
             then n + length (trace out) = 4 \<and> result out = Inl (RetryError e)
             else result out = Inl e)"
  using assms
proof (induction n arbitrary: s out s' rule: inc_induct)
  case base
  show ?case
  proof (cases rule: retry_loop_cases[of f envs 3 s])
    case (returned v s1)
    with base show ?thesis by auto
  next
    case (raised e s1)
    with base show ?thesis by auto
  next
    case (stopped e s1)
    with base show ?thesis by auto
  next
    case (retried e s1 out1 s2)
    then show ?thesis by simp
  qed
next
  case (step n)
  show ?case
  proof (cases rule: retry_loop_cases[of f envs n s])
    case (returned v s1)
    with step show ?thesis by auto
  next
    case (raised e s1)
    with step show ?thesis by auto
  next
    case (stopped e s1)
    with step show ?thesis by auto
  next
    case (retried e s1 out1 s2)
    have ih: "trace out1 \<noteq> [] \<and> Suc n + length (trace out1) \<le> 4
     \<and> waits out1 = map (wait_exponential 1 1 10) [Suc n ..< Suc n + length (trace out1) - 1]
     \<and> (\<forall>i. Suc i < length (trace out1) \<longrightarrow> (\<exists>e. trace out1 ! i = Inl e \<and> retry_if_exception_type e))
     \<and> hd (trace out1) = fst (f (envs (Suc n)) s1)
     \<and> (case last (trace out1) of
           Inr v \<Rightarrow> result out1 = Inr v
         | Inl e \<Rightarrow>
             if retry_if_exception_type e
             then Suc n + length (trace out1) = 4 \<and> result out1 = Inl (RetryError e)
             else result out1 = Inl e)"
      using step.IH[OF _ retried(4)] by simp
    have tr: "trace out = Inl e # trace out1"
      and wa: "waits out = wait_exponential 1 1 10 n # waits out1"
      and re: "result out = result out1"
      using retried(5) step.prems(2) by auto
    have ne: "trace out1 \<noteq> []" using ih by simp
    have w: "[n ..< n + length (trace out1)] = n # [Suc n ..< Suc n + length (trace out1) - 1]"
      using ne by (cases "trace out1") (auto simp: upt_rec)
    have c1: "trace out \<noteq> [] \<and> n + length (trace out) \<le> 4" using ih tr by simp
    have c2: "waits out = map (wait_exponential 1 1 10) [n ..< n + length (trace out) - 1]"
      using ih tr wa w by simp
    have c3: "\<forall>i. Suc i < length (trace out) \<longrightarrow> (\<exists>e. trace out ! i = Inl e \<and> retry_if_exception_type e)"
    proof (intro allI impI)
      fix i assume "Suc i < length (trace out)"
      then show "\<exists>e. trace out ! i = Inl e \<and> retry_if_exception_type e"
        using ih tr retried(2) by (cases i) auto
    qed
    have c4: "hd (trace out) = fst (f (envs n) s)" using tr retried(1) by simp
    have la: "last (trace out) = last (trace out1)" using tr ne by simp
    have c5: "(case last (trace out) of
           Inr v \<Rightarrow> result out = Inr v
         | Inl e \<Rightarrow>
             if retry_if_exception_type e
             then n + length (trace out) = 4 \<and> result out = Inl (RetryError e)
             else result out = Inl e)"
      using ih unfolding la re tr by (auto split: sum.splits)
    show ?thesis using c1 c2 c3 c4 c5 by blast
  qed
qed

lemma retry_loop_final:
  assumes pres: "\<And>env s e. fst (f env s) = Inl e \<Longrightarrow> retry_if_exception_type e \<Longrightarrow>
                   g (snd (f env s)) = g s"
  assumes "n \<le> 3" "retry_loop f envs n s = (out, s')"
  shows "\<exists>s0. g s0 = g s \<and> f (envs (n + length (trace out) - 1)) s0 = (last (trace out), s')"
  using assms(2,3)
proof (induction n arbitrary: s out s' rule: inc_induct)
  case base
  show ?case
  proof (cases rule: retry_loop_cases[of f envs 3 s])
    case (returned v s1)
    have o: "out = \<lparr>result = Inr v, trace = [Inr v], waits = []\<rparr>" "s' = s1"
      using returned(2) base.prems by simp_all
    show ?thesis unfolding o using returned(1) by (intro exI[of _ s]) simp
  next
    case (raised e s1)
    have o: "out = \<lparr>result = Inl e, trace = [Inl e], waits = []\<rparr>" "s' = s1"
      using raised(3) base.prems by simp_all
    show ?thesis unfolding o using raised(1) by (intro exI[of _ s]) simp
  next
    case (stopped e s1)
    have o: "out = \<lparr>result = Inl (RetryError e), trace = [Inl e], waits = []\<rparr>" "s' = s1"
      using stopped(4) base.prems by simp_all
    show ?thesis unfolding o using stopped(1) by (intro exI[of _ s]) simp
  next
    case (retried e s1 out1 s2)
    then show ?thesis by simp
  qed
next
  case (step n)
  show ?case
  proof (cases rule: retry_loop_cases[of f envs n s])
    case (returned v s1)
    have o: "out = \<lparr>result = Inr v, trace = [Inr v], waits = []\<rparr>" "s' = s1"
      using returned(2) step.prems by simp_all
    show ?thesis unfolding o using returned(1) by (intro exI[of _ s]) simp
  next
    case (raised e s1)
    have o: "out = \<lparr>result = Inl e, trace = [Inl e], waits = []\<rparr>" "s' = s1"
      using raised(3) step.prems by simp_all
    show ?thesis unfolding o using raised(1) by (intro exI[of _ s]) simp
  next
    case (stopped e s1)
    have o: "out = \<lparr>result = Inl (RetryError e), trace = [Inl e], waits = []\<rparr>" "s' = s1"
      using stopped(4) step.prems by simp_all
    show ?thesis unfolding o using stopped(1) by (intro exI[of _ s]) simp
  next
    case (retried e s1 out1 s2)
    obtain s0 where s0: "g s0 = g s1"
        "f (envs (Suc n + length (trace out1) - 1)) s0 = (last (trace out1), s2)"
      using step.IH[OF retried(4)] by blast
    have ne: "trace out1 \<noteq> []"
      using retry_loop_trace[OF _ _ retried(4)] step.hyps by simp
    have tr: "trace out = Inl e # trace out1" and s2: "s' = s2"
      using retried(5) step.prems by auto
    have "g s1 = g s" using pres[of "envs n" s e] retried(1,2) by simp
    then show ?thesis using s0 tr s2 ne by auto
  qed
qed

section \<open>The decorator follows the policy\<close>

lemma transient_iff: "transient e \<longleftrightarrow> retry_if_exception_type e"
  by (cases e) (simp_all add: transient_def)

lemma backoff_wait: "wait_exponential 1 1 10 k = backoff k"
  by (simp add: wait_exponential_def backoff_def)

lemmas policy_simps = follows_retry_policy_def attempt_def Let_def transient_iff
  backoff_wait backoff_def upt_rec atLeastLessThanSuc

lemma retry_follows_policy: "follows_retry_policy f envs s (retry f envs s)"
proof (cases rule: retry_loop_cases[of f envs 1 s])
  case (returned v s1)
  then show ?thesis by (simp add: retry_def policy_simps)
next
  case (raised e s1)
  then show ?thesis by (simp add: retry_def policy_simps)
next
  case (stopped e s1)
  then show ?thesis by simp
next
  case first: (retried e1 s1 out1 s2)
  show ?thesis
  proof (cases rule: retry_loop_cases[of f envs "Suc 1" s1])
    case (returned v t)
    have o: "out1 = \<lparr>result = Inr v, trace = [Inr v], waits = []\<rparr>" "s2 = t"
      using returned(2) first(4) by simp_all
    have r: "retry f envs s
        = (\<lparr>result = Inr v, trace = [Inl e1, Inr v], waits = [backoff 1]\<rparr>, t)"
      using first(5) unfolding o by (simp add: retry_def backoff_wait)
    show ?thesis unfolding r using first(1,2) returned(1) by (simp add: policy_simps)
  next
    case (raised e t)
    have o: "out1 = \<lparr>result = Inl e, trace = [Inl e], waits = []\<rparr>" "s2 = t"
      using raised(3) first(4) by simp_all
    have r: "retry f envs s
        = (\<lparr>result = Inl e, trace = [Inl e1, Inl e], waits = [backoff 1]\<rparr>, t)"
      using first(5) unfolding o by (simp add: retry_def backoff_wait)
    show ?thesis unfolding r using first(1,2) raised(1,2) by (simp add: policy_simps)
  next
    case (stopped e t)
    then show ?thesis by simp
  next
    case second: (retried e2 t out2 t2)
    have o1: "out1 = out2\<lparr>trace := Inl e2 # trace out2,
                             waits := backoff (Suc 1) # waits out2\<rparr>" "s2 = t2"
      using second(5) first(4) by (auto simp: backoff_wait)
    show ?thesis
    proof (cases rule: retry_loop_cases[of f envs "Suc (Suc 1)" t])
      case (returned v u)
      have o: "out2 = \<lparr>result = Inr v, trace = [Inr v], waits = []\<rparr>" "t2 = u"
        using returned(2) second(4) by simp_all
      have r: "retry f envs s
          = (\<lparr>result = Inr v, trace = [Inl e1, Inl e2, Inr v],
              waits = [backoff 1, backoff (Suc 1)]\<rparr>, u)"
        using first(5) unfolding o1 o by (simp add: retry_def backoff_wait)
      show ?thesis unfolding r using first(1,2) second(1,2) returned(1)
        by (simp add: policy_simps)
    next
      case (raised e u)
      have o: "out2 = \<lparr>result = Inl e, trace = [Inl e], waits = []\<rparr>" "t2 = u"
        using raised(3) second(4) by simp_all
      have r: "retry f envs s
          = (\<lparr>result = Inl e, trace = [Inl e1, Inl e2, Inl e],
              waits = [backoff 1, backoff (Suc 1)]\<rparr>, u)"
        using first(5) unfolding o1 o by (simp add: retry_def backoff_wait)
      show ?thesis unfolding r using first(1,2) second(1,2) raised(1,2)
        by (simp add: policy_simps)
    next
      case (stopped e u)
      have o: "out2 = \<lparr>result = Inl (RetryError e), trace = [Inl e], waits = []\<rparr>" "t2 = u"
        using stopped(4) second(4) by simp_all
      have r: "retry f envs s
          = (\<lparr>result = Inl (RetryError e), trace = [Inl e1, Inl e2, Inl e],
              waits = [backoff 1, backoff (Suc 1)]\<rparr>, u)"
        using first(5) unfolding o1 o by (simp add: retry_def backoff_wait)
      show ?thesis unfolding r using first(1,2) second(1,2) stopped(1,2)
        by (simp add: policy_simps)
    next
      case (retried e u out3 u2)
      then show ?thesis by simp
    qed
  qed
qed

lemma sends_iff: "sends s s' k \<longleftrightarrow> (\<exists>qs. sent s' = sent s @ qs \<and> length qs = k)"
proof
  assume a: "sends s s' k"
  have t: "take (length (sent s)) (sent s') = sent s" using a by (simp add: sends_def)
  have "sent s' = sent s @ drop (length (sent s)) (sent s')"
    by (metis t append_take_drop_id)
  moreover have "length (drop (length (sent s)) (sent s')) = k" using a by (simp add: sends_def)
  ultimately show "\<exists>qs. sent s' = sent s @ qs \<and> length qs = k" by blast
next
  assume "\<exists>qs. sent s' = sent s @ qs \<and> length qs = k"
  then show "sends s s' k" by (auto simp: sends_def)
qed

lemma sends_refl: "sends s s 0"
  by (simp add: sends_def)

lemma sends_trans: "sends s t a \<Longrightarrow> sends t u b \<Longrightarrow> sends s u (a + b)"
  unfolding sends_iff by auto

lemma sends_send: "sends s (send rq s) 1"
  by (simp add: sends_def send_def)

lemma sends_same: "sent s' = sent s \<Longrightarrow> sends s s' 0"
  by (simp add: sends_def)

lemma after_failed_attempts:
  assumes step: "\<forall>env s e. fst (f env s) = Inl e \<longrightarrow> transient e \<longrightarrow>
                   sends s (snd (f env s)) 1 \<and> g (snd (f env s)) = g s"
    and fails: "\<forall>k \<in> {1 ..< n}. case attempt f envs s k of Inl e \<Rightarrow> transient e | Inr v \<Rightarrow> False"
    and "m < n"
  shows "sends s (after_attempts f envs s m) m \<and> g (after_attempts f envs s m) = g s"
  using \<open>m < n\<close>
proof (induction m)
  case 0
  show ?case by (simp add: sends_refl)
next
  case (Suc m)
  let ?t = "after_attempts f envs s m"
  have ih: "sends s ?t m" "g ?t = g s" using Suc by simp_all
  have "Suc m \<in> {1 ..< n}" using Suc.prems by simp
  then have "case attempt f envs s (Suc m) of Inl e \<Rightarrow> transient e | Inr v \<Rightarrow> False"
    using fails by blast
  then obtain e where e: "fst (f (envs (Suc m)) ?t) = Inl e" "transient e"
    by (auto simp: attempt_def split: sum.splits)
  have st: "sends ?t (snd (f (envs (Suc m)) ?t)) 1" "g (snd (f (envs (Suc m)) ?t)) = g ?t"
    using step e by simp_all
  have "sends s (snd (f (envs (Suc m)) ?t)) (m + 1)" by (rule sends_trans[OF ih(1) st(1)])
  then show ?case using st(2) ih(2) by simp
qed

text \<open>The last attempt of a decorated call, and the client it starts in.\<close>

lemma retry_last_attempt:
  assumes step: "\<forall>env s e. fst (f env s) = Inl e \<longrightarrow> transient e \<longrightarrow>
                   sends s (snd (f env s)) 1 \<and> g (snd (f env s)) = g s"
    and run: "retry f envs s = (out, s')"
  shows "\<exists>s0. sends s s0 (length (trace out) - 1) \<and> g s0 = g s
           \<and> f (envs (length (trace out))) s0 = (attempt f envs s (length (trace out)), s')
           \<and> 1 \<le> length (trace out) \<and> length (trace out) \<le> 3
           \<and> (case attempt f envs s (length (trace out)) of
                 Inr v \<Rightarrow> result out = Inr v
               | Inl e \<Rightarrow>
                   if transient e then result out = Inl (RetryError e)
                   else result out = Inl e)"
proof -
  let ?n = "length (trace out)"
  have p: "follows_retry_policy f envs s (out, s')"
    using retry_follows_policy[of f envs s] run by simp
  have n: "1 \<le> ?n" "?n \<le> 3" using p by (simp_all add: follows_retry_policy_def Let_def)
  have fails: "\<forall>k \<in> {1 ..< ?n}. case attempt f envs s k of Inl e \<Rightarrow> transient e | Inr v \<Rightarrow> False"
    using p by (simp add: follows_retry_policy_def Let_def)
  have s': "s' = after_attempts f envs s ?n"
    using p by (simp add: follows_retry_policy_def Let_def)
  have res: "case attempt f envs s ?n of
                 Inr v \<Rightarrow> result out = Inr v
               | Inl e \<Rightarrow>
                   if transient e then result out = Inl (RetryError e)
                   else result out = Inl e"
    using p by (auto simp: follows_retry_policy_def Let_def split: sum.splits)
  let ?s0 = "after_attempts f envs s (?n - 1)"
  have a: "sends s ?s0 (?n - 1) \<and> g ?s0 = g s"
    by (rule after_failed_attempts[where n = ?n, OF step fails]) (use n in simp_all)
  obtain m where m: "?n = Suc m" using n by (cases ?n) simp_all
  have b: "f (envs ?n) ?s0 = (attempt f envs s ?n, s')"
    unfolding s' attempt_def m by (simp add: prod_eq_iff)
  show ?thesis using a b n res by blast
qed

section \<open>One request in every attempt\<close>













section \<open>Reading through the cache\<close>

lemma get_schema_body_shape:
  "get_schema_body parse schema_id use_cache
     = cached_read parse (''schema:'' @ schema_id)
         \<lparr>http_method = GET, path = ''/api/v1/schemas/'' @ schema_id, params = [], body = None\<rparr>
         use_cache"
  by (intro ext) (simp add: get_schema_body_def cached_read_def Let_def)

lemma get_schema_by_version_body_shape:
  "get_schema_by_version_body parse ns n v
     = cached_read parse (''schema:'' @ ns @ ''.'' @ n @ '':'' @ v)
         \<lparr>http_method = GET, path = ''/api/v1/schemas/'' @ ns @ ''/'' @ n @ ''/versions/'' @ v,
          params = [], body = None\<rparr>
         True"
  by (intro ext)
    (simp add: get_schema_by_version_body_def cached_read_def Let_def
          split: sum.splits prod.splits)

lemma map_of_filter_other_key:
  "map_of (filter (other_key key) es) k = (if k = key then None else map_of es k)"
  by (induction es) (auto simp: other_key_def)

lemma set_evict: "set (evict m es) \<subseteq> set es"
  by (induction es) auto

lemma map_of_written:
  "map_of (filter (other_key key) es @ [(key, v, e)]) key = Some (v, e)"
  by (simp add: map_of_filter_other_key map_add_def)

lemma cache_setitem_outcome:
  assumes "cache_setitem c now key v = (r, c')"
  shows "ttl c' = ttl c \<and> maxsize c' = maxsize c
     \<and> (case r of
           Inl e \<Rightarrow> e = ValueError \<and> set (entries c') \<subseteq> set (entries c)
         | Inr u \<Rightarrow>
             map_of (entries c') key = Some (v, now + ttl c)
             \<and> set (entries c') \<subseteq> insert (key, v, now + ttl c) (set (entries c)))"
proof (cases "1 > maxsize c")
  case True
  then have "r = Inl ValueError" "c' = c\<lparr>entries := expire now (entries c)\<rparr>"
    using assms by (simp_all add: cache_setitem_def Let_def)
  then show ?thesis by (auto simp: expire_def)
next
  case False
  define es where "es = (if map_of (expire now (entries c)) key = None
      then evict (maxsize c) (expire now (entries c)) else expire now (entries c))"
  have r: "r = Inr ()" "c' = c\<lparr>entries := filter (other_key key) es @ [(key, v, now + ttl c)]\<rparr>"
    using assms False by (simp_all add: cache_setitem_def Let_def es_def)
  have "set es \<subseteq> set (entries c)"
    using set_evict[of "maxsize c" "expire now (entries c)"] by (auto simp: es_def expire_def)
  then have sub: "set (entries c') \<subseteq> insert (key, v, now + ttl c) (set (entries c))"
    unfolding r by auto
  have m: "map_of (entries c') key = Some (v, now + ttl c)"
    unfolding r by (simp add: map_of_filter_other_key map_add_def)
  show ?thesis using sub m r by simp
qed

lemma cache_getitem_visible:
  assumes "cache_contains c now key"
  shows "\<exists>v e. map_of (entries c) key = Some (v, e) \<and> now < e
           \<and> cache_getitem c now' key
               = (if now' < e then Inr v else Inl KeyError,
                  c\<lparr>entries := filter (other_key key) (entries c) @ [(key, v, e)]\<rparr>)"
  using assms
  by (auto simp: cache_contains_def cache_getitem_def Let_def split: option.splits)

text \<open>One attempt of a read, in full.\<close>

lemma cached_read_step:
  assumes run: "cached_read parse key rq uc env s0 = (r, s1)"
  shows "ttl (cache s1) = ttl (cache s0) \<and> maxsize (cache s1) = maxsize (cache s0)
    \<and> (if uc \<and> cache_contains (cache s0) (clock env) key
       then sent s1 = sent s0
          \<and> (case map_of (entries (cache s0)) key of
               None \<Rightarrow> False
             | Some (v, e) \<Rightarrow>
                 clock env < e
                 \<and> r = (if clock_getitem env < e then Inr v else Inl KeyError)
                 \<and> entries (cache s1)
                     = filter (other_key key) (entries (cache s0)) @ [(key, v, e)])
       else sends s0 s1 1
          \<and> (case r of
               Inr v \<Rightarrow>
                 (case checked_json env of
                    Inl e \<Rightarrow> False
                  | Inr data \<Rightarrow> parse data = Inr v)
                 \<and> (if uc
                    then map_of (entries (cache s1)) key
                           = Some (v, clock_after env + ttl (cache s0))
                       \<and> set (entries (cache s1))
                           \<subseteq> insert (key, v, clock_after env + ttl (cache s0))
                               (set (entries (cache s0)))
                    else cache s1 = cache s0)
             | Inl e \<Rightarrow>
                 set (entries (cache s1)) \<subseteq> set (entries (cache s0))
                 \<and> (transient e \<longrightarrow> cache s1 = cache s0)))"
proof (cases "uc \<and> cache_contains (cache s0) (clock env) key")
  case True
  obtain v e where ve: "map_of (entries (cache s0)) key = Some (v, e)" "clock env < e"
      "cache_getitem (cache s0) (clock_getitem env) key
         = (if clock_getitem env < e then Inr v else Inl KeyError,
            (cache s0)\<lparr>entries := filter (other_key key) (entries (cache s0)) @ [(key, v, e)]\<rparr>)"
    using cache_getitem_visible[of "cache s0" "clock env" key "clock_getitem env"] True by blast
  have "r = (if clock_getitem env < e then Inr v else Inl KeyError)"
      "s1 = s0\<lparr>cache := (cache s0)\<lparr>entries := filter (other_key key) (entries (cache s0))
                                           @ [(key, v, e)]\<rparr>\<rparr>"
    using run True ve(3) by (simp_all add: cached_read_def)
  then show ?thesis using True ve(1,2) by simp
next
  case False
  show ?thesis
  proof (cases "checked_json env")
    case (Inl e)
    then have "r = Inl e" "s1 = send rq s0"
      using run False by (auto simp: cached_read_def Let_def)
    then show ?thesis unfolding if_not_P[OF False] by (simp add: sends_def send_def)
  next
    case data: (Inr data)
    show ?thesis
    proof (cases "parse data")
      case (Inl e)
      then have "r = Inl e" "s1 = send rq s0"
        using run False data by (auto simp: cached_read_def Let_def)
      then show ?thesis unfolding if_not_P[OF False] by (simp add: sends_def send_def)
    next
      case res: (Inr res)
      show ?thesis
      proof (cases uc)
        case nouc: False
        then have "r = Inr res" "s1 = send rq s0"
          using run data res by (auto simp: cached_read_def Let_def)
        then show ?thesis unfolding if_not_P[OF False] using nouc data res by (simp add: sends_def send_def)
      next
        case uc: True
        obtain x c' where set: "cache_setitem (cache s0) (clock_after env) key res = (x, c')"
          by (cases "cache_setitem (cache s0) (clock_after env) key res")
        note o = cache_setitem_outcome[OF set]
        have s1: "s1 = (send rq s0)\<lparr>cache := c'\<rparr>"
          using run False data res uc set
          by (auto simp: cached_read_def Let_def send_def split: sum.splits)
        have sd: "sends s0 s1 1" unfolding s1 by (simp add: sends_def send_def)
        show ?thesis
        proof (cases x)
          case (Inl e)
          then have "r = Inl ValueError"
            using run False data res uc set o
            by (auto simp: cached_read_def Let_def send_def split: sum.splits)
          then show ?thesis unfolding if_not_P[OF False] using sd o Inl s1 by (simp add: transient_def)
        next
          case (Inr u)
          then have "r = Inr res"
            using run False data res uc set
            by (auto simp: cached_read_def Let_def send_def split: sum.splits)
          then show ?thesis unfolding if_not_P[OF False] using sd o Inr s1 data res uc by simp
        qed
      qed
    qed
  qed
qed

lemma cached_read_failure:
  assumes "fst (cached_read parse key rq uc env s) = Inl e" "transient e"
  shows "sends s (snd (cached_read parse key rq uc env s)) 1
       \<and> cache (snd (cached_read parse key rq uc env s)) = cache s"
proof -
  have run: "cached_read parse key rq uc env s
      = (Inl e, snd (cached_read parse key rq uc env s))"
    using assms(1) by (simp add: prod_eq_iff)
  note st = cached_read_step[OF run]
  show ?thesis
  proof (cases "uc \<and> cache_contains (cache s) (clock env) key")
    case True
    show ?thesis using st[unfolded if_P[OF True]] assms(2)
      by (auto simp: transient_def split: option.splits if_splits)
  next
    case False
    show ?thesis using st[unfolded if_not_P[OF False]] assms(2) by simp
  qed
qed

lemma cached_read_never_stale:
  "never_stale parse key uc envs s (retry (cached_read parse key rq uc) envs s)"
proof -
  let ?f = "cached_read parse key rq uc"
  obtain out s' where run: "retry ?f envs s = (out, s')" by (cases "retry ?f envs s")
  let ?n = "length (trace out)"
  let ?r = "attempt ?f envs s ?n"
  have step: "\<forall>env s e. fst (?f env s) = Inl e \<longrightarrow> transient e \<longrightarrow>
      sends s (snd (?f env s)) 1 \<and> cache (snd (?f env s)) = cache s"
    by (intro allI impI) (rule cached_read_failure)
  obtain s0 where s0: "sends s s0 (?n - 1)" "cache s0 = cache s"
      "?f (envs ?n) s0 = (?r, s')" "1 \<le> ?n"
      and res: "case ?r of
                 Inr v \<Rightarrow> result out = Inr v
               | Inl e \<Rightarrow>
                   if transient e then result out = Inl (RetryError e)
                   else result out = Inl e"
    using retry_last_attempt[where g = cache and f = ?f, OF step run] by blast
  note st = cached_read_step[OF s0(3), unfolded s0(2)]
  have tm: "ttl (cache s') = ttl (cache s)" "maxsize (cache s') = maxsize (cache s)"
    using st by simp_all
  show ?thesis
  proof (cases "uc \<and> cache_contains (cache s) (clock (envs ?n)) key")
    case True
    note h = st[unfolded if_P[OF True]]
    obtain v e where ve: "map_of (entries (cache s)) key = Some (v, e)"
      using h by (auto split: option.splits)
    have h2: "clock (envs ?n) < e"
        "?r = (if clock_getitem (envs ?n) < e then Inr v else Inl KeyError)"
        "entries (cache s') = filter (other_key key) (entries (cache s)) @ [(key, v, e)]"
        "sent s' = sent s0"
      using h ve by simp_all
    have r: "result out = (if clock_getitem (envs ?n) < e then Inr v else Inl KeyError)"
      using res unfolding h2(2) by (simp add: transient_def split: if_splits)
    have sd: "sends s s' (?n - 1)" using s0(1) h2(4) by (simp add: sends_def)
    have "ttl (cache s') = ttl (cache s) \<and> maxsize (cache s') = maxsize (cache s)
      \<and> sends s s' (?n - 1)
      \<and> (case map_of (entries (cache s)) key of
               None \<Rightarrow> False
             | Some (v, e) \<Rightarrow>
                 clock (envs ?n) < e
                 \<and> result out = (if clock_getitem (envs ?n) < e then Inr v else Inl KeyError)
                 \<and> entries (cache s')
                     = filter (other_key key) (entries (cache s)) @ [(key, v, e)])"
      using tm sd ve h2(1,3) r by simp
    then show ?thesis
      unfolding never_stale_def run Let_def fst_conv snd_conv if_P[OF True] .
  next
    case False
    note h = st[unfolded if_not_P[OF False]]
    have "sends s0 s' 1" using h by simp
    then have sd: "sends s s' ?n" using sends_trans[OF s0(1)] s0(4) by fastforce
    have body: "case result out of
               Inr v \<Rightarrow>
                 (case checked_json (envs ?n) of
                    Inl e \<Rightarrow> False
                  | Inr data \<Rightarrow> parse data = Inr v)
                 \<and> (if uc
                    then map_of (entries (cache s')) key
                           = Some (v, clock_after (envs ?n) + ttl (cache s))
                       \<and> set (entries (cache s'))
                           \<subseteq> insert (key, v, clock_after (envs ?n) + ttl (cache s))
                               (set (entries (cache s)))
                    else cache s' = cache s)
             | Inl e \<Rightarrow> set (entries (cache s')) \<subseteq> set (entries (cache s))"
    proof (cases ?r)
      case (Inl e)
      then have "\<exists>e'. result out = Inl e'" using res by (simp split: if_splits)
      moreover have "set (entries (cache s')) \<subseteq> set (entries (cache s))"
        using h Inl by simp
      ultimately show ?thesis by auto
    next
      case (Inr v)
      then have "result out = Inr v" using res by simp
      then show ?thesis using h Inr by simp
    qed
    have "ttl (cache s') = ttl (cache s) \<and> maxsize (cache s') = maxsize (cache s)
      \<and> sends s s' ?n
      \<and> (case result out of
               Inr v \<Rightarrow>
                 (case checked_json (envs ?n) of
                    Inl e \<Rightarrow> False
                  | Inr data \<Rightarrow> parse data = Inr v)
                 \<and> (if uc
                    then map_of (entries (cache s')) key
                           = Some (v, clock_after (envs ?n) + ttl (cache s))
                       \<and> set (entries (cache s'))
                           \<subseteq> insert (key, v, clock_after (envs ?n) + ttl (cache s))
                               (set (entries (cache s)))
                    else cache s' = cache s)
             | Inl e \<Rightarrow> set (entries (cache s')) \<subseteq> set (entries (cache s)))"
      using tm sd body by simp
    then show ?thesis
      unfolding never_stale_def run Let_def fst_conv snd_conv if_not_P[OF False] .
  qed
qed


lemma expired_not_visible:
  "map_of (entries c) key = Some (r, e) \<Longrightarrow> e \<le> now \<Longrightarrow> \<not> cache_contains c now key"
  by (simp add: cache_contains_def)

lemma cached_read_fetches:
  assumes "\<not> (uc \<and> cache_contains (cache s)
                  (clock (envs (length (trace (fst (retry (cached_read parse key rq uc) envs s))))))
                  key)"
  shows "fetches parse envs s (retry (cached_read parse key rq uc) envs s)"
proof -
  let ?run = "retry (cached_read parse key rq uc) envs s"
  note ns = cached_read_never_stale[of parse key uc envs s rq,
      unfolded never_stale_def Let_def if_not_P[OF assms]]
  have sd: "sends s (snd ?run) (length (trace (fst ?run)))" using ns by simp
  show ?thesis
  proof (cases "result (fst ?run)")
    case (Inl e)
    then show ?thesis using sd by (simp add: fetches_def Let_def)
  next
    case (Inr v)
    then have "case checked_json (envs (length (trace (fst ?run)))) of
                 Inl e \<Rightarrow> False
               | Inr data \<Rightarrow> parse data = Inr v"
      using ns by simp
    then show ?thesis using sd Inr by (simp add: fetches_def Let_def)
  qed
qed

lemma cached_read_stored:
  assumes ok: "result (fst (retry (cached_read parse key rq True) envs s)) = Inr r"
    and miss: "\<not> cache_contains (cache s)
                  (clock (envs (length (trace (fst (retry (cached_read parse key rq True) envs s))))))
                  key"
  shows "map_of (entries (cache (snd (retry (cached_read parse key rq True) envs s)))) key
           = Some (r, clock_after (envs (length (trace (fst (retry (cached_read parse key rq True)
                                                                  envs s)))))
                        + ttl (cache s))"
proof -
  have m: "\<not> (True \<and> cache_contains (cache s)
                  (clock (envs (length (trace (fst (retry (cached_read parse key rq True) envs s))))))
                  key)"
    using miss by simp
  note ns = cached_read_never_stale[of parse key True envs s rq,
      unfolded never_stale_def Let_def if_not_P[OF m]]
  show ?thesis using ns ok by simp
qed

lemma cached_read_repeated:
  assumes ok: "result (fst (retry (cached_read parse key rq True) envs s)) = Inr r"
    and miss: "\<not> cache_contains (cache s)
                  (clock (envs (length (trace (fst (retry (cached_read parse key rq True) envs s))))))
                  key"
    and late: "clock_after (envs (length (trace (fst (retry (cached_read parse key rq True)
                                                          envs s)))))
                 + ttl (cache s)
               \<le> clock (later (length (trace (fst (retry (cached_read parse key rq uc') later
                     (snd (retry (cached_read parse key rq True) envs s)))))))"
  shows "fetches parse later (snd (retry (cached_read parse key rq True) envs s))
           (retry (cached_read parse key rq uc') later
              (snd (retry (cached_read parse key rq True) envs s)))"
proof (rule cached_read_fetches)
  show "\<not> (uc' \<and> cache_contains (cache (snd (retry (cached_read parse key rq True) envs s)))
              (clock (later (length (trace (fst (retry (cached_read parse key rq uc') later
                     (snd (retry (cached_read parse key rq True) envs s))))))))
              key)"
    using expired_not_visible[OF cached_read_stored[OF ok miss] late] by simp
qed

section \<open>Which failures are retried\<close>






lemma checked_of_error_response:
  "reply env = Inr r \<Longrightarrow> handle_response_error r = Some e \<Longrightarrow>
     checked_response env = Inl e \<and> checked_json env = Inl e"
  by (simp add: checked_response_def checked_json_def)

section \<open>What the other operations do to the cache\<close>

text \<open>The operations that do not use the cache leave the client as it was, requests apart.\<close>

lemma after_attempts_only_sends:
  assumes "\<forall>env s. snd (f env s) = send rq s"
  shows "after_attempts f envs s k = s\<lparr>sent := sent s @ replicate k rq\<rparr>"
proof (induction k)
  case 0
  show ?case by simp
next
  case (Suc k)
  show ?case using assms Suc by (simp add: send_def replicate_append_same)
qed

lemma retry_only_sends:
  assumes "\<forall>env s. snd (f env s) = send rq s"
  shows "snd (retry f envs s)
           = s\<lparr>sent := sent s @ replicate (length (trace (fst (retry f envs s)))) rq\<rparr>"
proof -
  have "snd (retry f envs s) = after_attempts f envs s (length (trace (fst (retry f envs s))))"
    using retry_follows_policy[of f envs s] by (simp add: follows_retry_policy_def Let_def)
  then show ?thesis using after_attempts_only_sends[OF assms, of envs s] by simp
qed

lemma validate_data_only_sends:
  "\<exists>qs. snd (validate_data parse dumps schema_id data envs s) = s\<lparr>sent := sent s @ qs\<rparr>"
proof -
  have "\<forall>env s. snd (validate_data_body parse dumps schema_id data env s)
      = send \<lparr>http_method = POST, path = ''/api/v1/validate'', params = [],
              body = Some (JObj [(''schema_id'', JStr schema_id),
                                 (''data'', JStr (case data of Inl str \<Rightarrow> str | Inr d \<Rightarrow> dumps d))])\<rparr>
          (s :: 'a client)"
    by (simp add: validate_data_body_def Let_def split: sum.splits)
  then show ?thesis unfolding validate_data_def using retry_only_sends by blast
qed

lemma check_compatibility_only_sends:
  "\<exists>qs. snd (check_compatibility parse schema_id new_content mode envs s)
          = s\<lparr>sent := sent s @ qs\<rparr>"
proof -
  have "\<forall>env s. snd (check_compatibility_body parse schema_id new_content mode env s)
      = send \<lparr>http_method = POST, path = ''/api/v1/compatibility/check'', params = [],
              body = Some (JObj [(''schema_id'', JStr schema_id),
                                 (''new_schema'', JStr new_content),
                                 (''mode'', JStr (mode_value mode))])\<rparr>
          (s :: 'a client)"
    by (simp add: check_compatibility_body_def Let_def split: sum.splits)
  then show ?thesis unfolding check_compatibility_def using retry_only_sends by blast
qed

lemma search_schemas_only_sends:
  "\<exists>qs. snd (search_schemas parse query limit offset envs s) = s\<lparr>sent := sent s @ qs\<rparr>"
proof -
  have "\<forall>env s. snd (search_schemas_body parse query limit offset env s)
      = send \<lparr>http_method = GET, path = ''/api/v1/search'',
              params = [(''q'', JStr query), (''limit'', JNum limit), (''offset'', JNum offset)],
              body = None\<rparr>
          (s :: 'a client)"
    by (simp add: search_schemas_body_def Let_def split: sum.splits)
  then show ?thesis unfolding search_schemas_def using retry_only_sends by blast
qed

lemma list_versions_only_sends:
  "\<exists>qs. snd (list_versions parse ns n envs s) = s\<lparr>sent := sent s @ qs\<rparr>"
proof -
  have "\<forall>env s. snd (list_versions_body parse ns n env s)
      = send \<lparr>http_method = GET, path = ''/api/v1/schemas/'' @ ns @ ''/'' @ n @ ''/versions'',
              params = [], body = None\<rparr>
          (s :: 'a client)"
    by (simp add: list_versions_body_def Let_def split: sum.splits)
  then show ?thesis unfolding list_versions_def using retry_only_sends by blast
qed

lemma health_check_only_sends:
  "\<exists>qs. snd (health_check envs s) = s\<lparr>sent := sent s @ qs\<rparr>"
proof -
  have "\<forall>env s. snd (health_check_body env s)
      = send \<lparr>http_method = GET, path = ''/health'', params = [], body = None\<rparr> (s :: 'a client)"
    by (simp add: health_check_body_def Let_def)
  then show ?thesis unfolding health_check_def using retry_only_sends by blast
qed

text \<open>The writes only remove entries.\<close>

lemma after_attempts_shrinks:
  assumes "\<forall>env s. shrinks (cache s) (cache (snd (f env s)))"
  shows "shrinks (cache s) (cache (after_attempts f envs s k))"
proof (induction k)
  case 0
  show ?case by (simp add: shrinks_def)
next
  case (Suc k)
  have "shrinks (cache (after_attempts f envs s k))
          (cache (snd (f (envs (Suc k)) (after_attempts f envs s k))))"
    using assms by blast
  then show ?case using Suc by (auto simp: shrinks_def)
qed

lemma retry_shrinks:
  assumes "\<forall>env s. shrinks (cache s) (cache (snd (f env s)))"
  shows "shrinks (cache s) (cache (snd (retry f envs s)))"
proof -
  have "snd (retry f envs s) = after_attempts f envs s (length (trace (fst (retry f envs s))))"
    using retry_follows_policy[of f envs s] by (simp add: follows_retry_policy_def Let_def)
  then show ?thesis using after_attempts_shrinks[OF assms, of s envs] by simp
qed

lemma cache_delitem_shrinks: "shrinks c (snd (cache_delitem c now key))"
  by (auto simp: cache_delitem_def shrinks_def Let_def split: option.splits)

lemma delete_schema_body_shrinks:
  "shrinks (cache s) (cache (snd (delete_schema_body schema_id env s)))"
proof -
  have a: "shrinks (cache s) (cache s)" by (simp add: shrinks_def)
  show ?thesis
    using a cache_delitem_shrinks[of "cache s" "clock_delitem env" "''schema:'' @ schema_id"]
    by (auto simp: delete_schema_body_def Let_def send_def split: sum.splits prod.splits)
qed

lemma register_schema_body_shrinks:
  "shrinks (cache s) (cache (snd (register_schema_body parse schema env s)))"
proof -
  have a: "shrinks (cache s) (cache s)" by (simp add: shrinks_def)
  show ?thesis
    using a cache_delitem_shrinks[of "cache s" "clock_delitem env"
        "namespace schema @ ''.'' @ name schema"]
    by (auto simp: register_schema_body_def Let_def send_def split: sum.splits prod.splits)
qed

section \<open>Conflicts\<close>

lemma retry_raises_at_once:
  "fst (f (envs 1) s) = Inl e \<Longrightarrow> \<not> retry_if_exception_type e \<Longrightarrow>
     result (fst (retry f envs s)) = Inl e"
  using retry_loop_raise[of f envs 1 s e "snd (f (envs 1) s)"]
  by (simp add: retry_def prod_eq_iff)

lemma handle_409_listed:
  assumes "status_code r = 409" "body_json r = Some (JObj d)"
    "map_of d ''incompatibilities'' = Some (JArr xs)"
  shows "handle_response_error r = Some (IncompatibleSchemaError (JArr xs))"
  using assms by (simp add: handle_response_error_def is_success_def dict_get_def)

lemma handle_409_fallback:
  assumes "status_code r = 409" "body_json r = Some (JObj d)"
    "map_of d ''incompatibilities'' = None"
  shows "handle_response_error r =
     Some (IncompatibleSchemaError (JArr [dict_get d ''message'' (JStr (response_text r))]))"
  using assms by (simp add: handle_response_error_def is_success_def dict_get_def)

lemma conflict_reaches_check:
  assumes "reply (envs 1) = Inr r" "handle_response_error r = Some (IncompatibleSchemaError l)"
  shows "result (fst (check_compatibility parse i c m envs s)) = Inl (IncompatibleSchemaError l)"
proof -
  have cj: "checked_json (envs (Suc 0)) = Inl (IncompatibleSchemaError l)"
    using checked_of_error_response[OF assms] by simp
  show ?thesis
    unfolding check_compatibility_def
    by (rule retry_raises_at_once) (simp_all add: check_compatibility_body_def cj Let_def)
qed

lemma conflict_reaches_register:
  assumes "reply (envs 1) = Inr r" "handle_response_error r = Some (IncompatibleSchemaError l)"
  shows "result (fst (register_schema parse schema envs s)) = Inl (IncompatibleSchemaError l)"
proof -
  have cj: "checked_json (envs (Suc 0)) = Inl (IncompatibleSchemaError l)"
    using checked_of_error_response[OF assms] by simp
  show ?thesis
    unfolding register_schema_def
    by (rule retry_raises_at_once) (simp_all add: register_schema_body_def cj Let_def)
qed

section \<open>Deleting\<close>

lemma retry_result_is_last:
  assumes "retry f envs s = (out, s')" "result out = Inr v"
  shows "last (trace out) = Inr v"
proof -
  have loop: "retry_loop f envs 1 s = (out, s')" using assms(1) by (simp add: retry_def)
  show ?thesis
    using retry_loop_trace[OF _ _ loop] assms(2)
    by (auto split: sum.splits if_splits)
qed

lemma delete_schema_body_failure:
  "fst (delete_schema_body i env s) = Inl e \<Longrightarrow> retry_if_exception_type e \<Longrightarrow>
     cache (snd (delete_schema_body i env s)) = cache s"
  by (auto simp: delete_schema_body_def Let_def send_def cache_delitem_def cache_contains_def
           split: sum.splits option.splits prod.splits if_splits)

lemma delete_schema_body_success:
  assumes "delete_schema_body i env s0 = (Inr u, s')"
  shows "entries (cache s') =
           (if cache_contains (cache s0) (clock_after env) (''schema:'' @ i)
            then filter (other_key (''schema:'' @ i)) (entries (cache s0))
            else entries (cache s0))
         \<and> maxsize (cache s') = maxsize (cache s0) \<and> ttl (cache s') = ttl (cache s0)"
  using assms
  by (auto simp: delete_schema_body_def Let_def send_def cache_delitem_def cache_contains_def
           split: sum.splits option.splits prod.splits if_splits)

lemma delete_schema_last_attempt:
  assumes run: "delete_schema schema_id envs s = (out, s')" and ok: "result out = Inr u"
  shows "\<exists>s0. cache s0 = cache s
           \<and> delete_schema_body schema_id (envs (length (trace out))) s0 = (Inr u, s')"
proof -
  have r: "retry (delete_schema_body schema_id) envs s = (out, s')"
    using run by (simp add: delete_schema_def)
  have loop: "retry_loop (delete_schema_body schema_id) envs 1 s = (out, s')"
    using r by (simp add: retry_def)
  have la: "last (trace out) = Inr u" by (rule retry_result_is_last[OF r ok])
  have pres: "\<And>env s e. fst (delete_schema_body schema_id env s) = Inl e \<Longrightarrow>
      retry_if_exception_type e \<Longrightarrow> cache (snd (delete_schema_body schema_id env s)) = cache s"
    by (rule delete_schema_body_failure)
  have "\<exists>s0. cache s0 = cache s
      \<and> delete_schema_body schema_id (envs (1 + length (trace out) - 1)) s0
           = (last (trace out), s')"
    using retry_loop_final[where g = cache and f = "delete_schema_body schema_id"
            and n = 1 and envs = envs and s = s and out = out and s' = s', OF pres _ loop]
    by simp
  then show ?thesis using la by simp
qed

section \<open>Versions\<close>

lemma is_uint_isdigit: "is_uint p \<Longrightarrow> isdigit p"
  by (auto simp: is_uint_def isdigit_def is_digit_char_def list_all_iff)

lemma spec_version_accepted: "spec_version v \<Longrightarrow> validate_version v = Inr v"
  by (auto simp: spec_version_def validate_version_def Let_def is_uint_isdigit
           split: list.splits)

lemma split_dot_chars: "p \<in> set (split_dot v) \<Longrightarrow> set p \<subseteq> set v"
proof (induction v arbitrary: p)
  case Nil
  then show ?case by simp
next
  case (Cons c cs)
  show ?case
  proof (cases "c = CHR ''.''")
    case True
    with Cons show ?thesis by auto
  next
    case False
    show ?thesis
    proof (cases "split_dot cs")
      case Nil
      with Cons.prems False show ?thesis by auto
    next
      case (Cons q qs)
      with Cons.prems False have "p = c # q \<or> p \<in> set qs" by auto
      then show ?thesis using Cons.IH[of q] Cons.IH[of p] Cons by auto
    qed
  qed
qed

lemma isdigit_plain:
  assumes "\<forall>c \<in> set v. is_digit_char c \<longrightarrow> is_ascii_digit c" "set p \<subseteq> set v" "isdigit p"
  shows "is_uint p"
  using assms by (auto simp: isdigit_def is_uint_def list_all_iff)

section \<open>How long an entry stays\<close>

lemma filter_other_key_absent:
  "key \<notin> fst ` set es \<Longrightarrow> filter (other_key key) es = es"
  by (induction es) (auto simp: other_key_def)

lemma keys_filter: "fst ` set (filter P es) \<subseteq> fst ` set es"
  by auto

lemma map_of_absent: "key \<notin> fst ` set es \<Longrightarrow> map_of es key = None"
  by (simp add: map_of_eq_None_iff)

lemma keeps_lookup:
  assumes "keeps key r e n c"
  shows "map_of (entries c) key = Some (r, e)"
proof -
  obtain pre post where p: "entries c = pre @ (key, r, e) # post" "key \<notin> fst ` set pre"
    using assms by (auto simp: keeps_def)
  show ?thesis unfolding p(1) using map_of_absent[OF p(2)] by (simp add: map_add_def)
qed

lemma keeps_contains:
  "keeps key r e n c \<Longrightarrow> now < e \<Longrightarrow> cache_contains c now key"
  using keeps_lookup[of key r e n c] by (simp add: cache_contains_def)


lemma keeps_other_fields:
  "keeps key r e n c \<Longrightarrow> entries c' = entries c \<Longrightarrow> keeps key r e n c'"
  by (simp add: keeps_def)










lemma maxsize_setitem: "maxsize (snd (cache_setitem c now k v)) = maxsize c"
  by (simp add: cache_setitem_def Let_def)

lemma maxsize_getitem: "maxsize (snd (cache_getitem c now k)) = maxsize c"
  by (simp add: cache_getitem_def Let_def split: option.splits)

lemma maxsize_delitem: "maxsize (snd (cache_delitem c now k)) = maxsize c"
  by (simp add: cache_delitem_def Let_def split: option.splits)

















section \<open>Where the code departs from its description\<close>

text \<open>
  Claim C1 says that a successful \<^verbatim>\<open>register_schema\<close> for a namespace and name removes
  the cache entry that \<^verbatim>\<open>get_schema_by_version\<close> reads for them, so that the next read
  is a miss. The code evicts the key \<^verbatim>\<open>"{namespace}.{name}"\<close>, under which nothing is
  ever stored, while the read uses \<^verbatim>\<open>"schema:{namespace}.{name}:{version}"\<close>. Here a
  version is read and cached at time 0, the same schema is registered with success at
  time 1, and the read at time 2 is answered from the cache: it returns the old record
  and sends no request, although the service would have answered with another one.
\<close>

theorem register_schema_leaves_version_entry:
  "(let s0 = demo_client 3 300 1000;
        (r1, s1) = get_schema_by_version Inr ''telemetry'' ''InferenceEvent'' ''1.0.0''
                     (\<lambda>n. answers 200 (Some (demo_record ''old'')) ''{}'' 0) s0;
        (r2, s2) = register_schema Inr demo_schema
                     (\<lambda>n. answers 201 (Some (demo_record ''new'')) ''{}'' 1) s1;
        (r3, s3) = get_schema_by_version Inr ''telemetry'' ''InferenceEvent'' ''1.0.0''
                     (\<lambda>n. answers 200 (Some (demo_record ''new'')) ''{}'' 2) s2
    in result r2 = Inr (demo_record ''new'')
       \<and> cache_contains (cache s2) 2 ''schema:telemetry.InferenceEvent:1.0.0''
       \<and> result r3 = Inr (demo_record ''old'')
       \<and> sent s3 = sent s2)"
  by code_simp

text \<open>
  Claim C2 says that every response outside 2xx raises one typed registry error chosen
  by the status code, the raw text standing in for the message when the body is not
  JSON, also for status 409. For 409 the code reads \<^verbatim>\<open>error_data\<close>, which is unbound
  when \<^verbatim>\<open>response.json()\<close> raised: the exception is \<^verbatim>\<open>UnboundLocalError\<close>, none of
  the registry's errors.
\<close>

theorem handle_response_error_409_not_json:
  "handle_response_error
     \<lparr>status_code = 409, body_json = None, response_text = ''Conflict'',
      retry_after_header = None\<rparr> = Some UnboundLocalError"
  by (simp add: handle_response_error_def is_success_def)

text \<open>
  Claim C3 says that the number of attempts is bounded by the \<^verbatim>\<open>max_retries\<close> given to
  the constructor. The constructor stores the value and nothing reads it; the decorator
  stops after 3 attempts whatever it is. Whatever \<^verbatim>\<open>max_retries\<close> is, for 1 as for 5, a
  read whose attempts all time out makes exactly three attempts, sleeping 1 and 2 between
  them.
\<close>

theorem max_retries_is_ignored:
  "(case get_schema parse schema_id use_cache (\<lambda>n. times_out t)
           (init url key retries cache_ttl cache_maxsize) of
      (out, s) \<Rightarrow>
        length (trace out) = 3 \<and> waits out = [1, 2] \<and> length (sent s) = 3
        \<and> result out = Inl (RetryError TimeoutException))"
  by (simp add: get_schema_def retry_def get_schema_body_def init_def TTLCache_def
      cache_contains_def times_out_def checked_json_def checked_response_def send_def
      stop_after_attempt_def wait_exponential_def retry_loop.simps)

text \<open>
  Claim C4 says that the not-found error raised on a 404 carries the identifier the
  caller asked for. The code builds it with \<^verbatim>\<open>SchemaNotFoundError(schema_id=message)\<close>,
  the message of the response body: asking for \<^verbatim>\<open>abc\<close>, the error's \<^verbatim>\<open>schema_id\<close> is
  the service's sentence.
\<close>

theorem not_found_carries_the_message:
  "(case get_schema Inr ''abc'' True
           (\<lambda>n. answers 404 (Some (JObj [(''message'', JStr ''no such schema'')])) ''{}'' 0)
           (demo_client 3 300 1000) of
      (out, s) \<Rightarrow>
        (case result out of
           Inl e \<Rightarrow>
             e = SchemaNotFoundError (JStr ''no such schema'')
             \<and> exn_schema_id e = Some (JStr ''no such schema'')
             \<and> exn_schema_id e \<noteq> Some (JStr ''abc'')
         | Inr r \<Rightarrow> False))"
  by code_simp

text \<open>
  Claim C6 says that a version that is not three dot-separated non-negative integers
  fails validation before any request is sent. The validator tests each part with
  \<^verbatim>\<open>str.isdigit()\<close>, which also holds for digit characters that are not decimal
  digits, such as the superscript two: the version \<^verbatim>\<open>1.0.\<close> followed by that character
  is not of the form \<^verbatim>\<open><uint>.<uint>.<uint>\<close>, yet the validator returns it, the
  \<^verbatim>\<open>Schema\<close> is constructed, and \<^verbatim>\<open>register_schema\<close> sends its request.
\<close>

theorem validate_version_accepts_superscript:
  "validate_version superscript_version = Inr superscript_version
   \<and> \<not> spec_version superscript_version
   \<and> (case new_Schema ''telemetry'' ''InferenceEvent'' superscript_version JSON_SCHEMA ''{}'' None of
         Inl e \<Rightarrow> False
       | Inr schema \<Rightarrow>
           (case register_schema Inr schema
                   (\<lambda>n. answers 201 (Some (demo_record ''new'')) ''{}'' 0)
                   (demo_client 3 300 1000) of
              (out, s) \<Rightarrow> result out = Inr (demo_record ''new'') \<and> length (sent s) = 1))"
  by code_simp

section \<open>What the code does as described\<close>



text \<open>
  Claim C9: when \<^verbatim>\<open>check_compatibility\<close> or \<^verbatim>\<open>register_schema\<close> is answered 409 with a
  JSON object whose \<^verbatim>\<open>incompatibilities\<close> is a list, the error raised holds exactly that
  list, in the same order; when the object has no such field, the error holds the
  one-element list of the message, which is the body's \<^verbatim>\<open>message\<close> field, or the raw
  text when that field is missing too. The error reaches the caller from the first
  attempt.
\<close>

theorem conflict_lists_incompatibilities:
  assumes "reply (envs 1) = Inr r" "status_code r = 409" "body_json r = Some (JObj d)"
  shows "(\<forall>xs. map_of d ''incompatibilities'' = Some (JArr xs) \<longrightarrow>
            handle_response_error r = Some (IncompatibleSchemaError (JArr xs))
            \<and> exn_incompatibilities (IncompatibleSchemaError (JArr xs)) = Some (JArr xs)
            \<and> result (fst (check_compatibility parse i c m envs s))
                = Inl (IncompatibleSchemaError (JArr xs))
            \<and> result (fst (register_schema parse' schema envs s))
                = Inl (IncompatibleSchemaError (JArr xs)))
       \<and> (map_of d ''incompatibilities'' = None \<longrightarrow>
            handle_response_error r
              = Some (IncompatibleSchemaError
                        (JArr [dict_get d ''message'' (JStr (response_text r))]))
            \<and> result (fst (check_compatibility parse i c m envs s))
                = Inl (IncompatibleSchemaError
                         (JArr [dict_get d ''message'' (JStr (response_text r))]))
            \<and> result (fst (register_schema parse' schema envs s))
                = Inl (IncompatibleSchemaError
                         (JArr [dict_get d ''message'' (JStr (response_text r))])))"
proof (intro conjI allI impI)
  fix xs assume l: "map_of d ''incompatibilities'' = Some (JArr xs)"
  note h = handle_409_listed[OF assms(2,3) l]
  show "handle_response_error r = Some (IncompatibleSchemaError (JArr xs))" by (rule h)
  show "exn_incompatibilities (IncompatibleSchemaError (JArr xs)) = Some (JArr xs)" by simp
  show "result (fst (check_compatibility parse i c m envs s))
                = Inl (IncompatibleSchemaError (JArr xs))"
    by (rule conflict_reaches_check[of envs r, OF assms(1) h])
  show "result (fst (register_schema parse' schema envs s))
                = Inl (IncompatibleSchemaError (JArr xs))"
    by (rule conflict_reaches_register[of envs r, OF assms(1) h])
next
  assume n: "map_of d ''incompatibilities'' = None"
  note h = handle_409_fallback[OF assms(2,3) n]
  show "handle_response_error r
              = Some (IncompatibleSchemaError
                        (JArr [dict_get d ''message'' (JStr (response_text r))]))" by (rule h)
  show "result (fst (check_compatibility parse i c m envs s))
                = Inl (IncompatibleSchemaError
                         (JArr [dict_get d ''message'' (JStr (response_text r))]))"
    by (rule conflict_reaches_check[of envs r, OF assms(1) h])
  show "result (fst (register_schema parse' schema envs s))
                = Inl (IncompatibleSchemaError
                         (JArr [dict_get d ''message'' (JStr (response_text r))]))"
    by (rule conflict_reaches_register[of envs r, OF assms(1) h])
qed

theorem conflict_lists_incompatibilities_witness:
  "result (fst (check_compatibility Inr ''abc'' ''{}'' BACKWARD
                  (\<lambda>n. conflict_body [(''incompatibilities'', JArr [JStr ''a'', JStr ''b''])])
                  (demo_client 3 300 1000)))
     = Inl (IncompatibleSchemaError (JArr [JStr ''a'', JStr ''b'']))
   \<and> result (fst (register_schema Inr demo_schema
                  (\<lambda>n. conflict_body [(''message'', JStr ''field removed'')])
                  (demo_client 3 300 1000)))
     = Inl (IncompatibleSchemaError (JArr [JStr ''field removed'']))"
proof -
  let ?r1 = "\<lparr>status_code = 409,
              body_json = Some (JObj [(''incompatibilities'', JArr [JStr ''a'', JStr ''b''])]),
              response_text = ''{}'', retry_after_header = None\<rparr>"
  let ?r2 = "\<lparr>status_code = 409,
              body_json = Some (JObj [(''message'', JStr ''field removed'')]),
              response_text = ''{}'', retry_after_header = None\<rparr>"
  show ?thesis
    using conflict_lists_incompatibilities[where
            envs = "\<lambda>n. conflict_body [(''incompatibilities'', JArr [JStr ''a'', JStr ''b''])]"
            and r = ?r1 and d = "[(''incompatibilities'', JArr [JStr ''a'', JStr ''b''])]"
            and parse = Inr and i = "''abc''" and c = "''{}''" and m = BACKWARD
            and s = "demo_client 3 300 1000" and parse' = Inr and schema = demo_schema]
          conflict_lists_incompatibilities[where
            envs = "\<lambda>n. conflict_body [(''message'', JStr ''field removed'')]"
            and r = ?r2 and d = "[(''message'', JStr ''field removed'')]"
            and parse = Inr and i = "''abc''" and c = "''{}''" and m = BACKWARD
            and s = "demo_client 3 300 1000" and parse' = Inr and schema = demo_schema]
    by (simp add: conflict_body_def answers_def dict_get_def)
qed

text \<open>
  Claim C10: a successful \<^verbatim>\<open>delete_schema(id)\<close> changes the cache at the key
  \<^verbatim>\<open>"schema:{id}"\<close> only. If that key is visible at the time of the attempt that succeeds,
  its entry is removed; the entries under every other key, those stored by
  \<^verbatim>\<open>get_schema_by_version\<close> included, keep their values, their expiry times and their
  order, and the size bound and the time-to-live of the cache are unchanged. Afterwards
  the key is not visible.
\<close>

theorem delete_schema_touches_one_key:
  assumes run: "delete_schema schema_id envs s = (out, s')" and ok: "result out = Inr u"
  shows "entries (cache s') =
           (if cache_contains (cache s) (clock_after (envs (length (trace out))))
                 (''schema:'' @ schema_id)
            then filter (other_key (''schema:'' @ schema_id)) (entries (cache s))
            else entries (cache s))
     \<and> filter (other_key (''schema:'' @ schema_id)) (entries (cache s'))
         = filter (other_key (''schema:'' @ schema_id)) (entries (cache s))
     \<and> (\<forall>k. k \<noteq> ''schema:'' @ schema_id \<longrightarrow>
           map_of (entries (cache s')) k = map_of (entries (cache s)) k)
     \<and> (\<forall>k t. k \<noteq> ''schema:'' @ schema_id \<longrightarrow>
           cache_contains (cache s') t k = cache_contains (cache s) t k)
     \<and> \<not> cache_contains (cache s') (clock_after (envs (length (trace out))))
           (''schema:'' @ schema_id)
     \<and> maxsize (cache s') = maxsize (cache s) \<and> ttl (cache s') = ttl (cache s)"
proof -
  obtain s0 where s0: "cache s0 = cache s"
      "delete_schema_body schema_id (envs (length (trace out))) s0 = (Inr u, s')"
    using delete_schema_last_attempt[OF run ok] by blast
  note e = delete_schema_body_success[OF s0(2), unfolded s0(1)]
  have c1: "entries (cache s') =
           (if cache_contains (cache s) (clock_after (envs (length (trace out))))
                 (''schema:'' @ schema_id)
            then filter (other_key (''schema:'' @ schema_id)) (entries (cache s))
            else entries (cache s))" using e by simp
  have c2: "filter (other_key (''schema:'' @ schema_id)) (entries (cache s'))
         = filter (other_key (''schema:'' @ schema_id)) (entries (cache s))"
    unfolding c1 by simp
  have c3: "\<forall>k. k \<noteq> ''schema:'' @ schema_id \<longrightarrow>
           map_of (entries (cache s')) k = map_of (entries (cache s)) k"
    unfolding c1 by (simp add: map_of_filter_other_key)
  have c4: "\<forall>k t. k \<noteq> ''schema:'' @ schema_id \<longrightarrow>
           cache_contains (cache s') t k = cache_contains (cache s) t k"
    using c3 by (simp add: cache_contains_def)
  have c5: "\<not> cache_contains (cache s') (clock_after (envs (length (trace out))))
           (''schema:'' @ schema_id)"
  proof (cases "cache_contains (cache s) (clock_after (envs (length (trace out))))
                 (''schema:'' @ schema_id)")
    case True
    then have "entries (cache s')
        = filter (other_key (''schema:'' @ schema_id)) (entries (cache s))"
      using c1 by simp
    then show ?thesis
      unfolding cache_contains_def by (simp only: map_of_filter_other_key) simp
  next
    case False
    then have "entries (cache s') = entries (cache s)" using c1 by simp
    then show ?thesis using False by (simp add: cache_contains_def)
  qed
  show ?thesis using c1 c2 c3 c4 c5 e by blast
qed

theorem delete_schema_touches_one_key_witness:
  "result (fst (delete_schema ''abc'' (\<lambda>n. answers 204 None [] 2) warm_client)) = Inr ()
   \<and> map fst (entries (cache warm_client))
       = [''schema:abc'', ''schema:telemetry.InferenceEvent:1.0.0'']
   \<and> map fst (entries (cache (snd (delete_schema ''abc'' (\<lambda>n. answers 204 None [] 2)
                                      warm_client))))
       = [''schema:telemetry.InferenceEvent:1.0.0'']
   \<and> filter (other_key ''schema:abc'')
        (entries (cache (snd (delete_schema ''abc'' (\<lambda>n. answers 204 None [] 2) warm_client))))
       = filter (other_key ''schema:abc'') (entries (cache warm_client))"
proof -
  let ?run = "delete_schema ''abc'' (\<lambda>n. answers 204 None [] 2) warm_client"
  have run: "?run = (fst ?run, snd ?run)" by simp
  have ok: "result (fst ?run) = Inr ()" by code_simp
  have before: "map fst (entries (cache warm_client))
       = [''schema:abc'', ''schema:telemetry.InferenceEvent:1.0.0'']" by code_simp
  have after: "map fst (entries (cache (snd ?run)))
       = [''schema:telemetry.InferenceEvent:1.0.0'']" by code_simp
  show ?thesis
    using delete_schema_touches_one_key[OF run ok] ok before after by simp
qed

text \<open>
  Claim C7: the two read operations never return a cache entry whose time-to-live has
  elapsed, and a read repeated after that time fetches the record anew. Both reads are
  what the specification asks of a read through the cache (\<open>never_stale\<close>): a record is
  returned without a request only when its expiry time lies after both timer readings of
  the attempt, a read from the cache leaves every expiry time as it is, and a record that
  was fetched is the one read from the response and is stored with the expiry time
  "timer reading of the store plus time-to-live". A read of a key whose entry has an
  expiry time at or before the timer reading of its last attempt sends a request in every
  attempt and returns the record of the last response, not the stored one; in
  particular, after a read has fetched and stored a record, a second read at or after
  "store time plus time-to-live" does so. No other operation adds an entry or changes an
  expiry time or the time-to-live: five operations leave the cache as it is, the two
  writes and \<^verbatim>\<open>clear_cache\<close> only remove entries, and a new client has an empty cache with
  the configured time-to-live. The timer readings are those of the surroundings of the
  attempt, so this is the library cache's timer made explicit.
\<close>

theorem never_served_after_ttl:
  "never_stale parse (''schema:'' @ i) uc envs s (get_schema parse i uc envs s)
   \<and> never_stale parse (''schema:'' @ ns @ ''.'' @ n @ '':'' @ ver) True envs s
       (get_schema_by_version parse ns n ver envs s)
   \<and> (\<forall>r e. map_of (entries (cache s)) (''schema:'' @ i) = Some (r, e) \<longrightarrow>
          e \<le> clock (envs (length (trace (fst (get_schema parse i uc envs s))))) \<longrightarrow>
          fetches parse envs s (get_schema parse i uc envs s))
   \<and> (\<forall>r e. map_of (entries (cache s)) (''schema:'' @ ns @ ''.'' @ n @ '':'' @ ver) = Some (r, e) \<longrightarrow>
          e \<le> clock (envs (length (trace (fst (get_schema_by_version parse ns n ver envs s))))) \<longrightarrow>
          fetches parse envs s (get_schema_by_version parse ns n ver envs s))
   \<and> (let first = get_schema parse i True envs s;
           n1 = length (trace (fst first));
           t = clock_after (envs n1) + ttl (cache s)
       in \<forall>r later uc'.
            result (fst first) = Inr r \<longrightarrow>
            \<not> cache_contains (cache s) (clock (envs n1)) (''schema:'' @ i) \<longrightarrow>
            t \<le> clock (later (length (trace (fst (get_schema parse i uc' later (snd first)))))) \<longrightarrow>
            map_of (entries (cache (snd first))) (''schema:'' @ i) = Some (r, t)
            \<and> fetches parse later (snd first) (get_schema parse i uc' later (snd first)))
   \<and> (let first = get_schema_by_version parse ns n ver envs s;
           n1 = length (trace (fst first));
           t = clock_after (envs n1) + ttl (cache s)
       in \<forall>r later.
            result (fst first) = Inr r \<longrightarrow>
            \<not> cache_contains (cache s) (clock (envs n1))
                (''schema:'' @ ns @ ''.'' @ n @ '':'' @ ver) \<longrightarrow>
            t \<le> clock (later (length (trace (fst (get_schema_by_version parse ns n ver later
                                                    (snd first)))))) \<longrightarrow>
            map_of (entries (cache (snd first))) (''schema:'' @ ns @ ''.'' @ n @ '':'' @ ver)
              = Some (r, t)
            \<and> fetches parse later (snd first)
                (get_schema_by_version parse ns n ver later (snd first)))
   \<and> cache (snd (validate_data parse_v dumps i d envs s)) = cache s
   \<and> cache (snd (check_compatibility parse_c i new_content mode envs s)) = cache s
   \<and> cache (snd (search_schemas parse_s query limit offset envs s)) = cache s
   \<and> cache (snd (list_versions parse_l ns n envs s)) = cache s
   \<and> cache (snd (health_check envs s)) = cache s
   \<and> set (entries (cache (snd (register_schema parse_q schema envs s))))
        \<subseteq> set (entries (cache s))
   \<and> ttl (cache (snd (register_schema parse_q schema envs s))) = ttl (cache s)
   \<and> set (entries (cache (snd (delete_schema i envs s)))) \<subseteq> set (entries (cache s))
   \<and> ttl (cache (snd (delete_schema i envs s))) = ttl (cache s)
   \<and> entries (cache (clear_cache s)) = []
   \<and> ttl (cache (clear_cache s)) = ttl (cache s)
   \<and> entries (cache (init url key retries cache_ttl cache_maxsize :: 'a client)) = []
   \<and> ttl (cache (init url key retries cache_ttl cache_maxsize :: 'a client)) = cache_ttl"
proof -
  let ?rq = "\<lparr>http_method = GET, path = ''/api/v1/schemas/'' @ i, params = [], body = None\<rparr>"
  let ?rqv = "\<lparr>http_method = GET,
               path = ''/api/v1/schemas/'' @ ns @ ''/'' @ n @ ''/versions/'' @ ver,
               params = [], body = None\<rparr>"
  let ?kv = "''schema:'' @ ns @ ''.'' @ n @ '':'' @ ver"
  have a1: "never_stale parse (''schema:'' @ i) uc envs s (get_schema parse i uc envs s)"
    unfolding get_schema_def get_schema_body_shape by (rule cached_read_never_stale)
  have a2: "never_stale parse ?kv True envs s (get_schema_by_version parse ns n ver envs s)"
    unfolding get_schema_by_version_def get_schema_by_version_body_shape
    by (rule cached_read_never_stale)
  have b1: "\<forall>r e. map_of (entries (cache s)) (''schema:'' @ i) = Some (r, e) \<longrightarrow>
          e \<le> clock (envs (length (trace (fst (get_schema parse i uc envs s))))) \<longrightarrow>
          fetches parse envs s (get_schema parse i uc envs s)"
  proof (intro allI impI)
    fix r e
    assume m: "map_of (entries (cache s)) (''schema:'' @ i) = Some (r, e)"
      and l: "e \<le> clock (envs (length (trace (fst (get_schema parse i uc envs s)))))"
    have "\<not> (uc \<and> cache_contains (cache s)
               (clock (envs (length (trace (fst (get_schema parse i uc envs s))))))
               (''schema:'' @ i))"
      using expired_not_visible[OF m l] by simp
    then show "fetches parse envs s (get_schema parse i uc envs s)"
      unfolding get_schema_def get_schema_body_shape by (rule cached_read_fetches)
  qed
  have b2: "\<forall>r e. map_of (entries (cache s)) ?kv = Some (r, e) \<longrightarrow>
          e \<le> clock (envs (length (trace (fst (get_schema_by_version parse ns n ver envs s))))) \<longrightarrow>
          fetches parse envs s (get_schema_by_version parse ns n ver envs s)"
  proof (intro allI impI)
    fix r e
    assume m: "map_of (entries (cache s)) ?kv = Some (r, e)"
      and l: "e \<le> clock (envs (length (trace (fst (get_schema_by_version parse ns n ver envs s)))))"
    have "\<not> (True \<and> cache_contains (cache s)
               (clock (envs (length (trace (fst (get_schema_by_version parse ns n ver envs s))))))
               ?kv)"
      using expired_not_visible[OF m l] by simp
    then show "fetches parse envs s (get_schema_by_version parse ns n ver envs s)"
      unfolding get_schema_by_version_def get_schema_by_version_body_shape
      by (rule cached_read_fetches)
  qed
  have c1: "let first = get_schema parse i True envs s;
           n1 = length (trace (fst first));
           t = clock_after (envs n1) + ttl (cache s)
       in \<forall>r later uc'.
            result (fst first) = Inr r \<longrightarrow>
            \<not> cache_contains (cache s) (clock (envs n1)) (''schema:'' @ i) \<longrightarrow>
            t \<le> clock (later (length (trace (fst (get_schema parse i uc' later (snd first)))))) \<longrightarrow>
            map_of (entries (cache (snd first))) (''schema:'' @ i) = Some (r, t)
            \<and> fetches parse later (snd first) (get_schema parse i uc' later (snd first))"
    unfolding Let_def get_schema_def get_schema_body_shape
    using cached_read_stored[of parse "''schema:'' @ i" ?rq envs s]
      cached_read_repeated[of parse "''schema:'' @ i" ?rq envs s]
    by blast
  have c2: "let first = get_schema_by_version parse ns n ver envs s;
           n1 = length (trace (fst first));
           t = clock_after (envs n1) + ttl (cache s)
       in \<forall>r later.
            result (fst first) = Inr r \<longrightarrow>
            \<not> cache_contains (cache s) (clock (envs n1)) ?kv \<longrightarrow>
            t \<le> clock (later (length (trace (fst (get_schema_by_version parse ns n ver later
                                                    (snd first)))))) \<longrightarrow>
            map_of (entries (cache (snd first))) ?kv = Some (r, t)
            \<and> fetches parse later (snd first)
                (get_schema_by_version parse ns n ver later (snd first))"
    unfolding Let_def get_schema_by_version_def get_schema_by_version_body_shape
    using cached_read_stored[of parse ?kv ?rqv envs s]
      cached_read_repeated[of parse ?kv ?rqv envs s _ _ True]
    by blast
  have d1: "cache (snd (validate_data parse_v dumps i d envs s)) = cache s"
    using validate_data_only_sends[of parse_v dumps i d envs s] by auto
  have d2: "cache (snd (check_compatibility parse_c i new_content mode envs s)) = cache s"
    using check_compatibility_only_sends[of parse_c i new_content mode envs s] by auto
  have d3: "cache (snd (search_schemas parse_s query limit offset envs s)) = cache s"
    using search_schemas_only_sends[of parse_s query limit offset envs s] by auto
  have d4: "cache (snd (list_versions parse_l ns n envs s)) = cache s"
    using list_versions_only_sends[of parse_l ns n envs s] by auto
  have d5: "cache (snd (health_check envs s)) = cache s"
    using health_check_only_sends[of envs s] by auto
  have "shrinks (cache s) (cache (snd (register_schema parse_q schema envs s)))"
    unfolding register_schema_def
    by (rule retry_shrinks) (intro allI, rule register_schema_body_shrinks)
  then have e1: "set (entries (cache (snd (register_schema parse_q schema envs s))))
        \<subseteq> set (entries (cache s))"
    and e2: "ttl (cache (snd (register_schema parse_q schema envs s))) = ttl (cache s)"
    by (simp_all add: shrinks_def)
  have "shrinks (cache s) (cache (snd (delete_schema i envs s)))"
    unfolding delete_schema_def
    by (rule retry_shrinks) (intro allI, rule delete_schema_body_shrinks)
  then have e3: "set (entries (cache (snd (delete_schema i envs s)))) \<subseteq> set (entries (cache s))"
    and e4: "ttl (cache (snd (delete_schema i envs s))) = ttl (cache s)"
    by (simp_all add: shrinks_def)
  have g1: "entries (cache (clear_cache s)) = []"
    and g2: "ttl (cache (clear_cache s)) = ttl (cache s)"
    by (simp_all add: clear_cache_def cache_clear_def)
  have h1: "entries (cache (init url key retries cache_ttl cache_maxsize :: 'a client)) = []"
    and h2: "ttl (cache (init url key retries cache_ttl cache_maxsize :: 'a client)) = cache_ttl"
    by (simp_all add: init_def TTLCache_def)
  show ?thesis
    by (intro conjI) (rule a1 a2 b1 b2 c1 c2 d1 d2 d3 d4 d5 e1 e2 e3 e4 g1 g2 h1 h2)+
qed

theorem never_served_after_ttl_witness:
  "map_of (entries (cache read_client)) ''schema:abc'' = Some (demo_record ''abc'', 300)
   \<and> never_stale Inr ''schema:abc'' True
       (\<lambda>n. answers 200 (Some (demo_record ''new'')) ''{}'' 299) read_client
       (get_schema Inr ''abc'' True
          (\<lambda>n. answers 200 (Some (demo_record ''new'')) ''{}'' 299) read_client)
   \<and> result (fst (get_schema Inr ''abc'' True
                    (\<lambda>n. answers 200 (Some (demo_record ''new'')) ''{}'' 299) read_client))
       = Inr (demo_record ''abc'')
   \<and> sent (snd (get_schema Inr ''abc'' True
                   (\<lambda>n. answers 200 (Some (demo_record ''new'')) ''{}'' 299) read_client))
       = sent read_client
   \<and> fetches Inr (\<lambda>n. answers 200 (Some (demo_record ''new'')) ''{}'' 300) read_client
       (get_schema Inr ''abc'' True
          (\<lambda>n. answers 200 (Some (demo_record ''new'')) ''{}'' 300) read_client)
   \<and> result (fst (get_schema Inr ''abc'' True
                    (\<lambda>n. answers 200 (Some (demo_record ''new'')) ''{}'' 300) read_client))
       = Inr (demo_record ''new'')
   \<and> length (sent (snd (get_schema Inr ''abc'' True
                   (\<lambda>n. answers 200 (Some (demo_record ''new'')) ''{}'' 300) read_client)))
       = Suc (length (sent read_client))"
proof -
  let ?e0 = "\<lambda>n::nat. answers 200 (Some (demo_record ''abc'')) ''{}'' 0"
  let ?e299 = "\<lambda>n::nat. answers 200 (Some (demo_record ''new'')) ''{}'' 299"
  let ?e300 = "\<lambda>n::nat. answers 200 (Some (demo_record ''new'')) ''{}'' 300"
  let ?s = "demo_client 3 300 1000 :: json client"
  let ?first = "get_schema Inr ''abc'' True ?e0 ?s"
  note th = never_served_after_ttl[where parse = Inr and i = "''abc''" and envs = ?e0
      and s = ?s]
  note rep = th[THEN conjunct2, THEN conjunct2, THEN conjunct2, THEN conjunct2,
      THEN conjunct1, unfolded Let_def]
  have rc: "snd ?first = read_client" by (simp add: read_client_def)
  have ok: "result (fst ?first) = Inr (demo_record ''abc'')" by code_simp
  have miss: "\<not> cache_contains (cache ?s) (clock (answers 200 (Some (demo_record ''abc'')) ''{}'' 0))
                 (''schema:'' @ ''abc'')" by code_simp
  have t: "clock_after (answers 200 (Some (demo_record ''abc'')) ''{}'' 0) + ttl (cache ?s) = 300"
    by code_simp
  have late: "clock_after (answers 200 (Some (demo_record ''abc'')) ''{}'' 0) + ttl (cache ?s)
      \<le> clock (answers 200 (Some (demo_record ''new'')) ''{}'' 300)"
    by code_simp
  have c: "map_of (entries (cache (snd ?first))) (''schema:'' @ ''abc'')
             = Some (demo_record ''abc'',
                     clock_after (answers 200 (Some (demo_record ''abc'')) ''{}'' 0)
                       + ttl (cache ?s))
      \<and> fetches Inr ?e300 (snd ?first) (get_schema Inr ''abc'' True ?e300 (snd ?first))"
    by (rule rep[rule_format, of "demo_record ''abc''" ?e300 True, OF ok miss late])
  have c1: "map_of (entries (cache read_client)) ''schema:abc'' = Some (demo_record ''abc'', 300)"
    using c unfolding rc t by simp
  have c2: "fetches Inr ?e300 read_client (get_schema Inr ''abc'' True ?e300 read_client)"
    using c unfolding rc by simp
  have c3: "never_stale Inr ''schema:abc'' True ?e299 read_client
       (get_schema Inr ''abc'' True ?e299 read_client)"
    using never_served_after_ttl[where parse = Inr and i = "''abc''" and uc = True
        and envs = ?e299 and s = read_client, THEN conjunct1]
    by simp
  have hit: "result (fst (get_schema Inr ''abc'' True ?e299 read_client))
       = Inr (demo_record ''abc'')" by code_simp
  have same: "sent (snd (get_schema Inr ''abc'' True ?e299 read_client)) = sent read_client"
    by code_simp
  have new: "result (fst (get_schema Inr ''abc'' True ?e300 read_client))
       = Inr (demo_record ''new'')" by code_simp
  have more: "length (sent (snd (get_schema Inr ''abc'' True ?e300 read_client)))
       = Suc (length (sent read_client))" by code_simp
  show ?thesis using c1 c2 c3 hit same new more by simp
qed

text \<open>
  Beside claim C6: on the version strings that contain no digit character other than
  \<open>0\<close> to \<open>9\<close>, the validator accepts exactly the versions of the form
  \<^verbatim>\<open><uint>.<uint>.<uint>\<close> and returns them unchanged; for every other such string the
  construction of the \<^verbatim>\<open>Schema\<close> raises, so that no schema exists to be sent.
\<close>

theorem validate_version_plain:
  assumes "\<forall>c \<in> set v. is_digit_char c \<longrightarrow> is_ascii_digit c"
  shows "(validate_version v = Inr v \<longleftrightarrow> spec_version v)
       \<and> (\<not> spec_version v \<longrightarrow>
            validate_version v = Inl ValueError
            \<and> new_Schema ns n v f c m = Inl ValidationError)
       \<and> (spec_version v \<longrightarrow>
            new_Schema ns n v f c m
              = Inr \<lparr>namespace = ns, name = n, version = v, format = f, content = c,
                     metadata = m\<rparr>)"
proof -
  have a: "validate_version v = Inr v \<Longrightarrow> spec_version v"
  proof -
    assume ok: "validate_version v = Inr v"
    then have len: "length (split_dot v) = 3" and all: "list_all isdigit (split_dot v)"
      by (auto simp: validate_version_def Let_def split: if_splits)
    obtain x y z where xyz: "split_dot v = [x, y, z]"
      using len by (auto simp: length_Suc_conv numeral_3_eq_3)
    have "is_uint x" "is_uint y" "is_uint z"
      using all xyz split_dot_chars[of _ v] isdigit_plain[OF assms] by auto
    then show "spec_version v" using xyz by (simp add: spec_version_def)
  qed
  have b: "validate_version v = Inr v \<or> validate_version v = Inl ValueError"
    by (simp add: validate_version_def Let_def)
  have c1: "validate_version v = Inr v \<longleftrightarrow> spec_version v"
    using a spec_version_accepted by blast
  have c2: "\<not> spec_version v \<longrightarrow>
            validate_version v = Inl ValueError
            \<and> new_Schema ns n v f c m = Inl ValidationError"
    using c1 b by (auto simp: new_Schema_def)
  have c3: "spec_version v \<longrightarrow>
            new_Schema ns n v f c m
              = Inr \<lparr>namespace = ns, name = n, version = v, format = f, content = c,
                     metadata = m\<rparr>"
    using c1 by (auto simp: new_Schema_def)
  show ?thesis using c1 c2 c3 by blast
qed

theorem validate_version_plain_witness:
  "validate_version ''1.0.0'' = Inr ''1.0.0'' \<and> spec_version ''1.0.0''
   \<and> \<not> spec_version ''1.0'' \<and> validate_version ''1.0'' = Inl ValueError
   \<and> new_Schema ''telemetry'' ''InferenceEvent'' ''1.0'' JSON_SCHEMA ''{}'' None
       = Inl ValidationError"
proof -
  have p1: "\<forall>c \<in> set ''1.0.0''. is_digit_char c \<longrightarrow> is_ascii_digit c" by code_simp
  have p2: "\<forall>c \<in> set ''1.0''. is_digit_char c \<longrightarrow> is_ascii_digit c" by code_simp
  have s1: "spec_version ''1.0.0''" by code_simp
  have s2: "\<not> spec_version ''1.0''" by code_simp
  show ?thesis
    using validate_version_plain[OF p1, of "''telemetry''" "''InferenceEvent''" JSON_SCHEMA
            "''{}''" None]
          validate_version_plain[OF p2, of "''telemetry''" "''InferenceEvent''" JSON_SCHEMA
            "''{}''" None] s1 s2
    by simp
qed

section \<open>What holds of a repeated read\<close>




end
